theory Spec2Isabelle
  imports Main "HOL-Library.Sublist"
begin

section \<open>JavaScript strings and the string operations the monitor uses\<close>

text \<open>
  A JavaScript string is modelled as a \<^typ>\<open>string\<close>, one \<^typ>\<open>char\<close> per code unit.

  \<open>String.prototype.toLowerCase\<close> belongs to the JavaScript runtime, not to the repository.
  Every function that calls it takes it as its first argument \<open>lc\<close>, so a statement about
  such a function holds for whatever lower-casing the runtime performs. Where a statement needs
  a property of the built-in, the property is a hypothesis: lower-casing maps the empty string,
  and only the empty string, to the empty string.

  \<open>ascii_toLowerCase\<close> folds the letters \<open>A\<close> to \<open>Z\<close> and leaves every other character as it
  is. It agrees with the built-in on texts of ASCII characters and is used where a statement is
  evaluated on such texts.

  The other built-ins are modelled on the ASCII range: \<open>trim\<close> removes tab, line feed, vertical
  tab, form feed, carriage return and space, the regular expression atom \<open>.\<close> excludes line
  feed and carriage return, and \<open>\d\<close> is an ASCII digit. The three Chinese placeholder texts of
  the parser are written as their UTF-8 bytes.
\<close>

type_synonym lowering = "string \<Rightarrow> string"

definition ascii_lower_char :: "char \<Rightarrow> char" where
  "ascii_lower_char c =
     (let n = (of_char c :: nat) in if 65 \<le> n \<and> n \<le> 90 then char_of (n + 32) else c)"

definition ascii_toLowerCase :: lowering where
  "ascii_toLowerCase s = map ascii_lower_char s"

fun startsWith :: "string \<Rightarrow> string \<Rightarrow> bool" where
  "startsWith s [] = True"
| "startsWith [] (k # ks) = False"
| "startsWith (c # cs) (k # ks) = (c = k \<and> startsWith cs ks)"

text \<open>\<open>s.includes(k)\<close>: \<open>k\<close> occurs in \<open>s\<close> as a contiguous run of characters.\<close>

fun js_includes :: "string \<Rightarrow> string \<Rightarrow> bool" where
  "js_includes [] k = (k = [])"
| "js_includes (c # cs) k = (startsWith (c # cs) k \<or> js_includes cs k)"

definition is_whitespace :: "char \<Rightarrow> bool" where
  "is_whitespace c = ((of_char c :: nat) \<in> {9, 10, 11, 12, 13, 32})"

definition trim :: "string \<Rightarrow> string" where
  "trim s = rev (dropWhile is_whitespace (rev (dropWhile is_whitespace s)))"

definition is_line_terminator :: "char \<Rightarrow> bool" where
  "is_line_terminator c = ((of_char c :: nat) \<in> {10, 13})"

definition is_digit :: "char \<Rightarrow> bool" where
  "is_digit c = (let n = (of_char c :: nat) in 48 \<le> n \<and> n \<le> 57)"

text \<open>The decimal text of an array index, as the template literal \<open>`item-${index}`\<close> prints it.\<close>

fun decimal :: "nat \<Rightarrow> string" where
  "decimal n =
     (if n < 10 then [char_of (48 + n)]
      else decimal (n div 10) @ [char_of (48 + n mod 10)])"

declare decimal.simps [simp del]

section \<open>Regular expressions of the feed parser\<close>

text \<open>
  Every field pattern of the parser has the shape \<open>/open(.*?)close/\<close> with literal \<open>open\<close> and
  \<open>close\<close>; the item pattern is \<open>/<item>([\s\S]*?)<\/item>/g\<close>, the same shape with a body
  that also crosses line ends. A match is the array \<open>[whole, group1]\<close>, \<open>None\<close> is JavaScript's
  \<open>null\<close>.

  \<open>lazy_body dotall close s\<close> runs the lazy body at \<open>s\<close>: the shortest run of admissible
  characters after which \<open>close\<close> follows.
\<close>

fun lazy_body :: "bool \<Rightarrow> string \<Rightarrow> string \<Rightarrow> string option" where
  "lazy_body dotall cl [] = (if cl = [] then Some [] else None)"
| "lazy_body dotall cl (c # cs) =
     (if startsWith (c # cs) cl then Some []
      else if \<not> dotall \<and> is_line_terminator c then None
      else map_option ((#) c) (lazy_body dotall cl cs))"

definition match_at :: "bool \<Rightarrow> string \<Rightarrow> string \<Rightarrow> string \<Rightarrow> string list option" where
  "match_at dotall opn cl s =
     (if startsWith s opn
      then map_option (\<lambda>g. [opn @ g @ cl, g]) (lazy_body dotall cl (drop (length opn) s))
      else None)"

text \<open>\<open>s.match(/open(.*?)close/)\<close>: the leftmost position at which the pattern matches.\<close>

fun regex_match :: "bool \<Rightarrow> string \<Rightarrow> string \<Rightarrow> string \<Rightarrow> string list option" where
  "regex_match dotall opn cl [] = match_at dotall opn cl []"
| "regex_match dotall opn cl (c # cs) =
     (case match_at dotall opn cl (c # cs) of
        Some m \<Rightarrow> Some m
      | None \<Rightarrow> regex_match dotall opn cl cs)"

text \<open>
  \<open>xmlText.match(itemRegex)\<close> with the \<open>g\<close> flag: the whole texts of all matches, each search
  starting where the last match ended. The counter is the number of characters of the last
  match that are still to be passed over.
\<close>

fun match_all_items :: "nat \<Rightarrow> string \<Rightarrow> string list" where
  "match_all_items skip [] = []"
| "match_all_items (Suc skip) (c # cs) = match_all_items skip cs"
| "match_all_items 0 (c # cs) =
     (case match_at True ''<item>'' ''</item>'' (c # cs) of
        Some m \<Rightarrow> hd m # match_all_items (length (hd m) - 1) cs
      | None \<Rightarrow> match_all_items 0 cs)"

text \<open>\<open>link.match(/post-(\d+)-/)\<close>: \<open>\d+\<close> is greedy, so it takes the whole run of digits.\<close>

definition post_id_at :: "string \<Rightarrow> string list option" where
  "post_id_at s =
     (if startsWith s ''post-''
      then (let r = drop 5 s; ds = takeWhile is_digit r
            in if ds \<noteq> [] \<and> startsWith (drop (length ds) r) ''-''
               then Some [''post-'' @ ds @ ''-'', ds] else None)
      else None)"

fun match_post_id :: "string \<Rightarrow> string list option" where
  "match_post_id [] = post_id_at []"
| "match_post_id (c # cs) =
     (case post_id_at (c # cs) of Some m \<Rightarrow> Some m | None \<Rightarrow> match_post_id cs)"

section \<open>The feed parser\<close>

record RSSPost =
  rss_id :: string
  rss_title :: string
  rss_description :: string
  rss_pubDate :: string
  rss_category :: string
  rss_creator :: string

datatype js_exception = TypeError

text \<open>\<open>m[1]\<close> is \<open>undefined\<close> when the array has no such element; a method call on it throws.\<close>

definition group1 :: "string list \<Rightarrow> js_exception + string" where
  "group1 m = (case m of _ # g # _ \<Rightarrow> Inr g | _ \<Rightarrow> Inl TypeError)"

text \<open>\<open>a || b\<close> on two match results.\<close>

definition or_else :: "'a option \<Rightarrow> 'a option \<Rightarrow> 'a option" where
  "or_else a b = (case a of Some m \<Rightarrow> Some m | None \<Rightarrow> b)"

text \<open>\<open>m ? m[1].trim() : dflt\<close>\<close>

definition trimmed_or :: "string list option \<Rightarrow> string \<Rightarrow> js_exception + string" where
  "trimmed_or m dflt =
     (case m of
        None \<Rightarrow> Inr dflt
      | Some a \<Rightarrow> (case group1 a of Inl e \<Rightarrow> Inl e | Inr g \<Rightarrow> Inr (trim g)))"

definition no_title :: string where
  "no_title = map char_of [0xE6, 0x97, 0xA0, 0xE6, 0xA0, 0x87, 0xE9, 0xA2, 0x98 :: nat]"

definition no_category :: string where
  "no_category = map char_of [0xE6, 0x9C, 0xAA, 0xE5, 0x88, 0x86, 0xE7, 0xB1, 0xBB :: nat]"

definition no_creator :: string where
  "no_creator = map char_of
     [0xE6, 0x9C, 0xAA, 0xE7, 0x9F, 0xA5, 0xE4, 0xBD, 0x9C, 0xE8, 0x80, 0x85 :: nat]"

definition titleMatch :: "string \<Rightarrow> string list option" where
  "titleMatch item =
     or_else (regex_match False ''<title><![CDATA['' '']]></title>'' item)
             (regex_match False ''<title>'' ''</title>'' item)"

definition linkMatch :: "string \<Rightarrow> string list option" where
  "linkMatch item = regex_match False ''<link>'' ''</link>'' item"

text \<open>\<open>const link = linkMatch ? linkMatch[1] : ''\<close>\<close>

definition link_of :: "string \<Rightarrow> string" where
  "link_of item = (case linkMatch item of None \<Rightarrow> [] | Some m \<Rightarrow> m ! 1)"

definition descriptionMatch :: "string \<Rightarrow> string list option" where
  "descriptionMatch item =
     or_else (regex_match False ''<description><![CDATA['' '']]></description>'' item)
             (regex_match False ''<description>'' ''</description>'' item)"

definition pubDateMatch :: "string \<Rightarrow> string list option" where
  "pubDateMatch item = regex_match False ''<pubDate>'' ''</pubDate>'' item"

definition categoryMatch :: "string \<Rightarrow> string list option" where
  "categoryMatch item =
     or_else (regex_match False ''<category><![CDATA['' '']]></category>'' item)
             (regex_match False ''<category>'' ''</category>'' item)"

definition creatorMatch :: "string \<Rightarrow> string list option" where
  "creatorMatch item =
     or_else (regex_match False ''<dc:creator><![CDATA['' '']]></dc:creator>'' item)
             (regex_match False ''<dc:creator>'' ''</dc:creator>'' item)"

text \<open>The callback of \<open>items.forEach\<close>: one item and its index give one post, or an exception.\<close>

definition parse_item :: "nat \<Rightarrow> string \<Rightarrow> js_exception + RSSPost" where
  "parse_item index item =
     (case (case linkMatch item of None \<Rightarrow> Inr [] | Some m \<Rightarrow> group1 m) of
        Inl e \<Rightarrow> Inl e
      | Inr link \<Rightarrow>
     (case (case match_post_id link of
              None \<Rightarrow> Inr (''item-'' @ decimal index)
            | Some m \<Rightarrow> group1 m) of
        Inl e \<Rightarrow> Inl e
      | Inr the_id \<Rightarrow>
     (case trimmed_or (titleMatch item) no_title of
        Inl e \<Rightarrow> Inl e
      | Inr the_title \<Rightarrow>
     (case trimmed_or (descriptionMatch item) [] of
        Inl e \<Rightarrow> Inl e
      | Inr the_description \<Rightarrow>
     (case trimmed_or (pubDateMatch item) [] of
        Inl e \<Rightarrow> Inl e
      | Inr the_pubDate \<Rightarrow>
     (case trimmed_or (categoryMatch item) no_category of
        Inl e \<Rightarrow> Inl e
      | Inr the_category \<Rightarrow>
     (case trimmed_or (creatorMatch item) no_creator of
        Inl e \<Rightarrow> Inl e
      | Inr the_creator \<Rightarrow>
          Inr \<lparr>rss_id = the_id, rss_title = the_title, rss_description = the_description,
               rss_pubDate = the_pubDate, rss_category = the_category,
               rss_creator = the_creator\<rparr>)))))))"

text \<open>\<open>items.forEach((item, index) => ... posts.push(post))\<close>, from index \<open>index\<close> on.\<close>

fun forEach_items :: "nat \<Rightarrow> string list \<Rightarrow> js_exception + RSSPost list" where
  "forEach_items index [] = Inr []"
| "forEach_items index (item # items) =
     (case parse_item index item of
        Inl e \<Rightarrow> Inl e
      | Inr post \<Rightarrow>
          (case forEach_items (Suc index) items of
             Inl e \<Rightarrow> Inl e
           | Inr posts \<Rightarrow> Inr (post # posts)))"

text \<open>The body of the \<open>try\<close> block of \<open>parseRSSXML\<close>, and the function with its \<open>catch\<close>.\<close>

definition parseRSSXML_try :: "string \<Rightarrow> js_exception + RSSPost list" where
  "parseRSSXML_try xmlText = forEach_items 0 (match_all_items 0 xmlText)"

definition parseRSSXML :: "string \<Rightarrow> RSSPost list" where
  "parseRSSXML xmlText =
     (case parseRSSXML_try xmlText of Inr posts \<Rightarrow> posts | Inl e \<Rightarrow> [])"

section \<open>Rows of the store\<close>

text \<open>
  The D1 store is outside the repository. It is modelled as four tables, each a list of rows in
  insertion order; the insertion order stands for the column \<open>created_at\<close>, which the store
  fills in by itself. A key that JavaScript computes as \<open>NaN\<close> reaches the store as \<open>NULL\<close>,
  written \<open>None\<close>, and an SQL comparison with \<open>NULL\<close> selects no row.
\<close>

record DBPost =
  db_id :: int
  post_id :: "int option"
  title :: string
  content :: string
  pub_date :: string
  category :: string
  creator :: string
  is_push :: int

record User =
  u_id :: int
  u_chat_id :: int
  username :: "string option"
  first_name :: "string option"
  last_name :: "string option"
  max_sub :: int
  u_is_active :: int

record KeywordSub =
  ks_id :: int
  ks_user_id :: int
  keywords_count :: int
  keyword1 :: string
  keyword2 :: "string option"
  keyword3 :: "string option"
  ks_is_active :: int

record PushLog =
  pl_id :: int
  pl_user_id :: int
  pl_chat_id :: int
  pl_post_id :: "int option"
  pl_sub_id :: int
  push_status :: int
  error_message :: "string option"

record D1Database =
  posts :: "DBPost list"
  users :: "User list"
  keywords_sub :: "KeywordSub list"
  push_logs :: "PushLog list"

definition sql_eq :: "int option \<Rightarrow> int option \<Rightarrow> bool" where
  "sql_eq a b = (a \<noteq> None \<and> a = b)"

text \<open>The row id the store gives to a new row: one more than the largest id in the table.\<close>

definition next_id :: "int list \<Rightarrow> int" where
  "next_id ids = fold max ids 0 + 1"

text \<open>
  Every statement sent to the store may throw. Which ones do is given by a function from the
  statement to the text of the error, \<open>None\<close> when the statement succeeds. A statement that
  throws leaves the store as it was.
\<close>

datatype statement =
    SelectPost "int option"
  | InsertPost "int option"
  | SelectActiveUsers
  | SelectUserKeywords int
  | SelectUnpushed
  | MarkPost "int option"
  | SelectLog int "int option" int
  | InsertLog int "int option" int
  | SelectPending
  | UpdateLogSent int
  | UpdateLogFailed int
  | UpdateLogCaught int
  | DeactivateUser int

type_synonym faults = "statement \<Rightarrow> string option"

definition no_faults :: faults where
  "no_faults = (\<lambda>st. None)"

section \<open>The matcher\<close>

text \<open>A string that may be \<open>undefined\<close> is truthy when it is present and not empty.\<close>

definition truthy :: "string option \<Rightarrow> bool" where
  "truthy s = (case s of None \<Rightarrow> False | Some t \<Rightarrow> t \<noteq> [])"

definition searchText :: "lowering \<Rightarrow> DBPost \<Rightarrow> string" where
  "searchText lc post =
     lc (title post @ '' '' @ content post @ '' '' @ category post @ '' '' @ creator post)"

definition matchKeywords :: "lowering \<Rightarrow> DBPost \<Rightarrow> KeywordSub \<Rightarrow> bool" where
  "matchKeywords lc post keywords =
     (let k1 = lc (keyword1 keywords);
          k2 = map_option lc (keyword2 keywords);
          k3 = map_option lc (keyword3 keywords)
      in if k1 = [] \<or> \<not> js_includes (searchText lc post) k1 then False
         else if keywords_count keywords = 1 then True
         else if keywords_count keywords = 2 then
           (if truthy k2 then js_includes (searchText lc post) (the k2) else False)
         else if keywords_count keywords = 3 then
           (if truthy k2 \<and> truthy k3
            then js_includes (searchText lc post) (the k2) \<and> js_includes (searchText lc post) (the k3)
            else False)
         else False)"

section \<open>The post store\<close>

text \<open>
  \<open>parseInt\<close>: leading white space, an optional sign, then the longest run of decimal digits
  (of hexadecimal digits after \<open>0x\<close>); \<open>NaN\<close>, here \<open>None\<close>, when there is no digit. The value
  is exact, as it is in JavaScript below \<open>2^53\<close>.
\<close>

definition hex_value :: "char \<Rightarrow> nat option" where
  "hex_value c =
     (let n = (of_char c :: nat)
      in if 48 \<le> n \<and> n \<le> 57 then Some (n - 48)
         else if 65 \<le> n \<and> n \<le> 70 then Some (n - 55)
         else if 97 \<le> n \<and> n \<le> 102 then Some (n - 87)
         else None)"

definition digits_value :: "nat \<Rightarrow> string \<Rightarrow> nat" where
  "digits_value radix ds = foldl (\<lambda>a c. radix * a + the (hex_value c)) 0 ds"

definition parseInt :: "string \<Rightarrow> int option" where
  "parseInt s =
     (let t = dropWhile is_whitespace s;
          neg = startsWith t ''-'';
          u = (if startsWith t ''-'' \<or> startsWith t ''+'' then tl t else t);
          hex = (startsWith u ''0x'' \<or> startsWith u ''0X'');
          ds = (if hex then takeWhile (\<lambda>c. hex_value c \<noteq> None) (drop 2 u)
                else takeWhile is_digit u);
          v = int (digits_value (if hex then 16 else 10) ds)
      in if ds = [] then None else Some (if neg then - v else v))"

definition select_post :: "D1Database \<Rightarrow> int option \<Rightarrow> DBPost option" where
  "select_post db k = find (\<lambda>r. sql_eq (post_id r) k) (posts db)"

definition insert_post :: "D1Database \<Rightarrow> RSSPost \<Rightarrow> D1Database" where
  "insert_post db post =
     db\<lparr>posts := posts db @
        [\<lparr>db_id = next_id (map db_id (posts db)), post_id = parseInt (rss_id post),
          title = rss_title post, content = rss_description post,
          pub_date = rss_pubDate post, category = rss_category post,
          creator = rss_creator post, is_push = 0\<rparr>]\<rparr>"

text \<open>
  The \<open>for\<close> loop of \<open>savePostsToDatabase\<close>. The first component of the result is the error
  that left the loop, \<open>None\<close> when the loop ran to its end.
\<close>

fun save_loop ::
  "faults \<Rightarrow> RSSPost list \<Rightarrow> nat \<times> D1Database \<Rightarrow> string option \<times> nat \<times> D1Database" where
  "save_loop f [] (savedCount, db) = (None, savedCount, db)"
| "save_loop f (post # rest) (savedCount, db) =
     (case f (SelectPost (parseInt (rss_id post))) of
        Some e \<Rightarrow> (Some e, savedCount, db)
      | None \<Rightarrow>
          (case select_post db (parseInt (rss_id post)) of
             Some existing \<Rightarrow> save_loop f rest (savedCount, db)
           | None \<Rightarrow>
               (case f (InsertPost (parseInt (rss_id post))) of
                  Some e \<Rightarrow> (Some e, savedCount, db)
                | None \<Rightarrow> save_loop f rest (Suc savedCount, insert_post db post))))"

text \<open>The \<open>catch\<close> around the loop only logs; the count reached so far is returned.\<close>

definition savePostsToDatabase :: "faults \<Rightarrow> D1Database \<Rightarrow> RSSPost list \<Rightarrow> nat \<times> D1Database" where
  "savePostsToDatabase f db rssPosts = snd (save_loop f rssPosts (0, db))"

definition getUnpushedPosts :: "faults \<Rightarrow> D1Database \<Rightarrow> nat \<Rightarrow> DBPost list" where
  "getUnpushedPosts f db limit =
     (case f SelectUnpushed of
        Some e \<Rightarrow> []
      | None \<Rightarrow> take limit (rev (filter (\<lambda>p. is_push p = 0) (posts db))))"

text \<open>\<open>UPDATE posts SET is_push = 1 WHERE post_id = ?\<close>, on one row and as the function.\<close>

definition mark_row :: "int option \<Rightarrow> DBPost \<Rightarrow> DBPost" where
  "mark_row postId p = (if sql_eq (post_id p) postId then p\<lparr>is_push := 1\<rparr> else p)"

definition markPostAsPushed :: "faults \<Rightarrow> D1Database \<Rightarrow> int option \<Rightarrow> D1Database" where
  "markPostAsPushed f db postId =
     (case f (MarkPost postId) of
        Some e \<Rightarrow> db
      | None \<Rightarrow> db\<lparr>posts := map (mark_row postId) (posts db)\<rparr>)"

section \<open>The subscriber registry\<close>

definition getActiveUsers :: "faults \<Rightarrow> D1Database \<Rightarrow> User list" where
  "getActiveUsers f db =
     (case f SelectActiveUsers of
        Some e \<Rightarrow> []
      | None \<Rightarrow> filter (\<lambda>u. u_is_active u = 1) (users db))"

definition getUserKeywords :: "faults \<Rightarrow> D1Database \<Rightarrow> int \<Rightarrow> KeywordSub list" where
  "getUserKeywords f db userId =
     (case f (SelectUserKeywords userId) of
        Some e \<Rightarrow> []
      | None \<Rightarrow> filter (\<lambda>k. ks_user_id k = userId \<and> ks_is_active k = 1) (keywords_sub db))"

text \<open>\<open>UPDATE users SET is_active = 0 WHERE chat_id = ?\<close>, on one row and as the function.\<close>

definition deactivate_row :: "int \<Rightarrow> User \<Rightarrow> User" where
  "deactivate_row chatId u = (if u_chat_id u = chatId then u\<lparr>u_is_active := 0\<rparr> else u)"

definition deactivateUser :: "faults \<Rightarrow> D1Database \<Rightarrow> int \<Rightarrow> D1Database" where
  "deactivateUser f db chatId =
     (case f (DeactivateUser chatId) of
        Some e \<Rightarrow> db
      | None \<Rightarrow> db\<lparr>users := map (deactivate_row chatId) (users db)\<rparr>)"

section \<open>Fan-out: \<open>createPushLogs\<close>\<close>

definition select_log :: "D1Database \<Rightarrow> int \<Rightarrow> int option \<Rightarrow> int \<Rightarrow> PushLog option" where
  "select_log db userId postId subId =
     find (\<lambda>l. pl_user_id l = userId \<and> sql_eq (pl_post_id l) postId \<and> pl_sub_id l = subId)
          (push_logs db)"

definition new_push_log :: "D1Database \<Rightarrow> User \<Rightarrow> DBPost \<Rightarrow> KeywordSub \<Rightarrow> PushLog" where
  "new_push_log db user post keywords =
     \<lparr>pl_id = next_id (map pl_id (push_logs db)), pl_user_id = u_id user,
      pl_chat_id = u_chat_id user, pl_post_id = post_id post, pl_sub_id = ks_id keywords,
      push_status = 0, error_message = None\<rparr>"

definition insert_log :: "D1Database \<Rightarrow> User \<Rightarrow> DBPost \<Rightarrow> KeywordSub \<Rightarrow> D1Database" where
  "insert_log db user post keywords =
     db\<lparr>push_logs := push_logs db @ [new_push_log db user post keywords]\<rparr>"

text \<open>
  The innermost loop, \<open>for (const keywords of keywordSubs)\<close>, with its \<open>break\<close>. The state is
  \<open>(totalLogs, createdLogs, store)\<close>; the first component of the result is the error that left
  the loop, if any.
\<close>

fun scan_keywordSubs ::
  "lowering \<Rightarrow> faults \<Rightarrow> DBPost \<Rightarrow> User \<Rightarrow> KeywordSub list \<Rightarrow> nat \<times> nat \<times> D1Database
     \<Rightarrow> string option \<times> nat \<times> nat \<times> D1Database" where
  "scan_keywordSubs lc f post user [] (totalLogs, createdLogs, db) =
     (None, totalLogs, createdLogs, db)"
| "scan_keywordSubs lc f post user (keywords # rest) (totalLogs, createdLogs, db) =
     (if matchKeywords lc post keywords then
        (case f (SelectLog (u_id user) (post_id post) (ks_id keywords)) of
           Some e \<Rightarrow> (Some e, Suc totalLogs, createdLogs, db)
         | None \<Rightarrow>
             (case select_log db (u_id user) (post_id post) (ks_id keywords) of
                Some existing \<Rightarrow> (None, Suc totalLogs, createdLogs, db)
              | None \<Rightarrow>
                  (case f (InsertLog (u_id user) (post_id post) (ks_id keywords)) of
                     Some e \<Rightarrow> (Some e, Suc totalLogs, createdLogs, db)
                   | None \<Rightarrow>
                       (None, Suc totalLogs, Suc createdLogs,
                        insert_log db user post keywords))))
      else scan_keywordSubs lc f post user rest (totalLogs, createdLogs, db))"

text \<open>The body of \<open>for (const user of users)\<close> for one user, and the loop.\<close>

definition fanout_pair ::
  "lowering \<Rightarrow> faults \<Rightarrow> DBPost \<Rightarrow> User \<Rightarrow> nat \<times> nat \<times> D1Database
     \<Rightarrow> string option \<times> nat \<times> nat \<times> D1Database" where
  "fanout_pair lc f post user st =
     scan_keywordSubs lc f post user (getUserKeywords f (snd (snd st)) (u_id user)) st"

fun for_users ::
  "lowering \<Rightarrow> faults \<Rightarrow> DBPost \<Rightarrow> User list \<Rightarrow> nat \<times> nat \<times> D1Database
     \<Rightarrow> string option \<times> nat \<times> nat \<times> D1Database" where
  "for_users lc f post [] st = (None, st)"
| "for_users lc f post (user # rest) st =
     (case fanout_pair lc f post user st of
        (Some e, st') \<Rightarrow> (Some e, st')
      | (None, st') \<Rightarrow> for_users lc f post rest st')"

text \<open>The outer loop, \<open>for (const post of posts)\<close>, which marks each post when its users are done.\<close>

fun for_posts ::
  "lowering \<Rightarrow> faults \<Rightarrow> User list \<Rightarrow> DBPost list \<Rightarrow> nat \<times> nat \<times> D1Database
     \<Rightarrow> string option \<times> nat \<times> nat \<times> D1Database" where
  "for_posts lc f us [] st = (None, st)"
| "for_posts lc f us (post # rest) st =
     (case for_users lc f post us st of
        (Some e, st') \<Rightarrow> (Some e, st')
      | (None, totalLogs, createdLogs, db) \<Rightarrow>
          for_posts lc f us rest (totalLogs, createdLogs, markPostAsPushed f db (post_id post)))"

text \<open>
  \<open>createPushLogs\<close>: the \<open>catch\<close> around the loops only logs. The result is
  \<open>(totalLogs, createdLogs, store)\<close>.
\<close>

definition createPushLogs :: "lowering \<Rightarrow> faults \<Rightarrow> D1Database \<Rightarrow> DBPost list \<Rightarrow> nat \<times> nat \<times> D1Database" where
  "createPushLogs lc f db ps = snd (for_posts lc f (getActiveUsers f db) ps (0, 0, db))"

section \<open>Ingestion: \<open>rssMonitorTask\<close>\<close>

text \<open>
  The result object of a task: the flag \<open>success\<close> and the numbers of \<open>stats\<close> by name; the
  message text is left out.
\<close>

record TaskResult =
  success :: bool
  stats :: "(string \<times> nat) list"

text \<open>
  \<open>fetchRSSData\<close>: the network is outside the repository. The response is \<open>None\<close> when the
  request throws or is not \<open>ok\<close>, otherwise the text of the body.
\<close>

definition fetchRSSData :: "string option \<Rightarrow> RSSPost list" where
  "fetchRSSData response =
     (case response of None \<Rightarrow> [] | Some xmlText \<Rightarrow> parseRSSXML xmlText)"

text \<open>
  \<open>rssMonitorTask\<close>, in two parts: the fetch, and the steps that follow it on the posts
  it returned. Nothing inside the outer \<open>try\<close> throws, so the task always reports success.
\<close>

definition rssMonitorTask_steps ::
  "lowering \<Rightarrow> faults \<Rightarrow> RSSPost list \<Rightarrow> D1Database \<Rightarrow> TaskResult \<times> D1Database" where
  "rssMonitorTask_steps lc f rssPosts db =
     (if length rssPosts = 0
      then (\<lparr>success = True, stats = [(''rssPostsCount'', 0)]\<rparr>, db)
      else
        (let (savedCount, db1) = savePostsToDatabase f db rssPosts;
             unpushedPosts = getUnpushedPosts f db1 50;
             (totalLogs, createdLogs, db2) =
                (if length unpushedPosts > 0 then createPushLogs lc f db1 unpushedPosts
                 else (0, 0, db1))
         in (\<lparr>success = True,
              stats = [(''rssPostsCount'', length rssPosts), (''savedNewPosts'', savedCount),
                       (''unpushedPosts'', length unpushedPosts),
                       (''keywordMatches'', totalLogs), (''createdPushLogs'', createdLogs)]\<rparr>,
             db2)))"

definition rssMonitorTask ::
  "lowering \<Rightarrow> faults \<Rightarrow> string option \<Rightarrow> D1Database \<Rightarrow> TaskResult \<times> D1Database" where
  "rssMonitorTask lc f response db = rssMonitorTask_steps lc f (fetchRSSData response) db"

section \<open>Dispatch: \<open>pushTask\<close>\<close>

text \<open>A row of the pending query: a push log joined with its post, its filter and its user.\<close>

record PendingLog =
  log_id :: int
  log_user_id :: int
  log_sub_id :: int
  log_post_id :: "int option"
  log_title :: string
  log_content :: string
  log_category :: string
  log_creator :: string
  log_keyword1 :: string
  log_keyword2 :: "string option"
  log_keyword3 :: "string option"
  log_chat_id :: int

definition joined :: "PushLog \<Rightarrow> DBPost \<Rightarrow> KeywordSub \<Rightarrow> User \<Rightarrow> PendingLog" where
  "joined pl p ks u =
     \<lparr>log_id = pl_id pl, log_user_id = pl_user_id pl, log_sub_id = pl_sub_id pl,
      log_post_id = post_id p, log_title = title p, log_content = content p,
      log_category = category p, log_creator = creator p, log_keyword1 = keyword1 ks,
      log_keyword2 = keyword2 ks, log_keyword3 = keyword3 ks, log_chat_id = u_chat_id u\<rparr>"

definition join_log :: "D1Database \<Rightarrow> PushLog \<Rightarrow> PendingLog list" where
  "join_log db pl =
     concat (map (\<lambda>p.
       concat (map (\<lambda>ks.
         map (\<lambda>u. joined pl p ks u)
             (filter (\<lambda>u. pl_user_id pl = u_id u) (users db)))
         (filter (\<lambda>ks. pl_sub_id pl = ks_id ks) (keywords_sub db))))
       (filter (\<lambda>p. sql_eq (pl_post_id pl) (post_id p)) (posts db)))"

text \<open>\<open>WHERE pl.push_status = 0 ORDER BY pl.created_at ASC LIMIT 100\<close>\<close>

definition pendingLogs :: "D1Database \<Rightarrow> PendingLog list" where
  "pendingLogs db =
     take 100 (concat (map (join_log db) (filter (\<lambda>pl. push_status pl = 0) (push_logs db))))"

text \<open>
  The delivery channel is outside the repository: for a chat, a post and the matched keywords,
  \<open>bot.api.sendMessage\<close> either returns (\<open>None\<close>) or throws an error, of which the code reads
  \<open>message\<close>, \<open>description\<close> and the text \<open>String(error)\<close>.
\<close>

record js_error =
  err_message :: "string option"
  err_description :: "string option"
  err_string :: string

type_synonym channel = "int \<Rightarrow> DBPost \<Rightarrow> string list \<Rightarrow> js_error option"

record SendResult =
  send_success :: bool
  send_error :: "string option"
  userBlocked :: "bool option"

definition blockedErrors :: "string list" where
  "blockedErrors =
     [''Forbidden: bot was blocked by the user'',
      ''Forbidden: user is deactivated'',
      ''Forbidden: bot was kicked from the group chat'',
      ''Forbidden: bot was kicked from the supergroup chat'',
      ''Bad Request: chat not found'']"

text \<open>\<open>error?.message || error?.description || String(error)\<close>\<close>

definition errorMessage :: "js_error \<Rightarrow> string" where
  "errorMessage error =
     (if truthy (err_message error) then the (err_message error)
      else if truthy (err_description error) then the (err_description error)
      else err_string error)"

definition is_blocked :: "lowering \<Rightarrow> string \<Rightarrow> bool" where
  "is_blocked lc msg =
     list_ex (\<lambda>blockedError. js_includes (lc msg) (lc blockedError))
             blockedErrors"

definition sendTelegramMessage :: "lowering \<Rightarrow> channel \<Rightarrow> int \<Rightarrow> DBPost \<Rightarrow> string list \<Rightarrow> SendResult" where
  "sendTelegramMessage lc ch chatId post matchedKeywords =
     (case ch chatId post matchedKeywords of
        None \<Rightarrow> \<lparr>send_success = True, send_error = None, userBlocked = None\<rparr>
      | Some error \<Rightarrow>
          \<lparr>send_success = False, send_error = Some (errorMessage error),
           userBlocked = Some (is_blocked lc (errorMessage error))\<rparr>)"

text \<open>\<open>UPDATE push_logs SET push_status = 1, error_message = ? WHERE id = ?\<close>\<close>

definition set_status :: "int \<Rightarrow> string option \<Rightarrow> PushLog \<Rightarrow> PushLog" where
  "set_status logId err l =
     (if pl_id l = logId then l\<lparr>push_status := 1, error_message := err\<rparr> else l)"

definition update_log :: "D1Database \<Rightarrow> int \<Rightarrow> string option \<Rightarrow> D1Database" where
  "update_log db logId err = db\<lparr>push_logs := map (set_status logId err) (push_logs db)\<rparr>"

definition matchedKeywords_of :: "PendingLog \<Rightarrow> string list" where
  "matchedKeywords_of log =
     map the (filter truthy [Some (log_keyword1 log), log_keyword2 log, log_keyword3 log])"

definition post_of :: "PendingLog \<Rightarrow> DBPost" where
  "post_of log =
     \<lparr>db_id = log_id log, post_id = log_post_id log, title = log_title log,
      content = log_content log, pub_date = [], category = log_category log,
      creator = log_creator log, is_push = 1\<rparr>"

text \<open>
  The \<open>try\<close> block for one pending row. The state is \<open>(successful, failed, store)\<close>; the first
  component of the result is the exception that left the block, if any.
\<close>

definition try_send ::
  "lowering \<Rightarrow> faults \<Rightarrow> channel \<Rightarrow> PendingLog \<Rightarrow> nat \<times> nat \<times> D1Database
     \<Rightarrow> string option \<times> nat \<times> nat \<times> D1Database" where
  "try_send lc f ch log st =
     (case st of (successful, failed, db) \<Rightarrow>
       (let sent = sendTelegramMessage lc ch (log_chat_id log) (post_of log) (matchedKeywords_of log)
        in if send_success sent then
             (case f (UpdateLogSent (log_id log)) of
                Some e \<Rightarrow> (Some e, successful, failed, db)
              | None \<Rightarrow> (None, Suc successful, failed, update_log db (log_id log) None))
           else
             (case f (UpdateLogFailed (log_id log)) of
                Some e \<Rightarrow> (Some e, successful, failed, db)
              | None \<Rightarrow>
                  (None, successful, Suc failed,
                   (if userBlocked sent = Some True
                    then deactivateUser f (update_log db (log_id log) (send_error sent))
                           (log_chat_id log)
                    else update_log db (log_id log) (send_error sent))))))"

text \<open>The loop body: the \<open>try\<close> block and its \<open>catch\<close>, whose own update may throw as well.\<close>

definition process_log ::
  "lowering \<Rightarrow> faults \<Rightarrow> channel \<Rightarrow> PendingLog \<Rightarrow> nat \<times> nat \<times> D1Database
     \<Rightarrow> string option \<times> nat \<times> nat \<times> D1Database" where
  "process_log lc f ch log st =
     (case try_send lc f ch log st of
        (None, st') \<Rightarrow> (None, st')
      | (Some error, successful, failed, db) \<Rightarrow>
          (case f (UpdateLogCaught (log_id log)) of
             Some e \<Rightarrow> (Some e, successful, failed, db)
           | None \<Rightarrow>
               (None, successful, Suc failed, update_log db (log_id log) (Some error))))"

fun for_logs ::
  "lowering \<Rightarrow> faults \<Rightarrow> channel \<Rightarrow> PendingLog list \<Rightarrow> nat \<times> nat \<times> D1Database
     \<Rightarrow> string option \<times> nat \<times> nat \<times> D1Database" where
  "for_logs lc f ch [] st = (None, st)"
| "for_logs lc f ch (log # rest) st =
     (case process_log lc f ch log st of
        (Some e, st') \<Rightarrow> (Some e, st')
      | (None, st') \<Rightarrow> for_logs lc f ch rest st')"

definition pushTask :: "lowering \<Rightarrow> faults \<Rightarrow> channel \<Rightarrow> D1Database \<Rightarrow> TaskResult \<times> D1Database" where
  "pushTask lc f ch db =
     (case f SelectPending of
        Some e \<Rightarrow> (\<lparr>success = False, stats = []\<rparr>, db)
      | None \<Rightarrow>
          (let pending = pendingLogs db
           in if length pending = 0
              then (\<lparr>success = True,
                     stats = [(''pushAttempts'', 0), (''successfulPushes'', 0),
                              (''failedPushes'', 0)]\<rparr>, db)
              else
                (case for_logs lc f ch pending (0, 0, db) of
                   (Some e, successful, failed, db') \<Rightarrow> (\<lparr>success = False, stats = []\<rparr>, db')
                 | (None, successful, failed, db') \<Rightarrow>
                     (\<lparr>success = True,
                       stats = [(''pushAttempts'', length pending),
                                (''successfulPushes'', successful),
                                (''failedPushes'', failed)]\<rparr>, db'))))"

section \<open>Example data\<close>

text \<open>A small store and a few rows, used where a statement is evaluated on concrete input.\<close>

abbreviation ex_rss :: "string \<Rightarrow> string \<Rightarrow> RSSPost" where
  "ex_rss i t \<equiv> \<lparr>rss_id = i, rss_title = t, rss_description = [], rss_pubDate = [],
                  rss_category = ''c'', rss_creator = ''bob''\<rparr>"

abbreviation ex_post :: "int \<Rightarrow> int \<Rightarrow> string \<Rightarrow> int \<Rightarrow> DBPost" where
  "ex_post i k t m \<equiv> \<lparr>db_id = i, post_id = Some k, title = t, content = [], pub_date = [],
                  category = ''c'', creator = ''bob'', is_push = m\<rparr>"

abbreviation ex_user :: "int \<Rightarrow> User" where
  "ex_user a \<equiv> \<lparr>u_id = 1, u_chat_id = 100, username = None, first_name = None,
                last_name = None, max_sub = 5, u_is_active = a\<rparr>"

abbreviation ex_db :: "int \<Rightarrow> DBPost list \<Rightarrow> PushLog list \<Rightarrow> D1Database" where
  "ex_db a ps ls \<equiv> \<lparr>posts = ps,
      users = [ex_user a],
      keywords_sub = [\<lparr>ks_id = 1, ks_user_id = 1, keywords_count = 1, keyword1 = ''hello'',
                       keyword2 = None, keyword3 = None, ks_is_active = 1\<rparr>,
                      \<lparr>ks_id = 2, ks_user_id = 1, keywords_count = 1, keyword1 = ''hell'',
                       keyword2 = None, keyword3 = None, ks_is_active = 1\<rparr>],
      push_logs = ls\<rparr>"

abbreviation ex_log :: "int \<Rightarrow> int \<Rightarrow> int \<Rightarrow> int \<Rightarrow> string option \<Rightarrow> PushLog" where
  "ex_log i k sub status err \<equiv>
     \<lparr>pl_id = i, pl_user_id = 1, pl_chat_id = 100, pl_post_id = Some k, pl_sub_id = sub,
      push_status = status, error_message = err\<rparr>"

text \<open>
  \<open>n\<close> saved posts that the fan-out has not seen yet, as the upsert leaves them when a feed
  brings \<open>n\<close> new posts.
\<close>

definition ex_backlog :: "nat \<Rightarrow> DBPost list" where
  "ex_backlog n = map (\<lambda>i. ex_post (int i) (int i) ''Hello'' 0) [1..<n + 1]"

text \<open>A channel that delivers every message, and one that rejects every message.\<close>

abbreviation ex_delivers :: channel where
  "ex_delivers \<equiv> (\<lambda>chatId post kws. None)"

abbreviation ex_rejects :: "string \<Rightarrow> channel" where
  "ex_rejects msg \<equiv>
     (\<lambda>chatId post kws. Some \<lparr>err_message = Some msg, err_description = None, err_string = msg\<rparr>)"

text \<open>The pending row that the join gives for \<open>ex_log i 42 sub 0 None\<close>.\<close>

abbreviation ex_pending :: "int \<Rightarrow> int \<Rightarrow> PendingLog" where
  "ex_pending i sub \<equiv>
     \<lparr>log_id = i, log_user_id = 1, log_sub_id = sub, log_post_id = Some 42, log_title = ''Hello'',
      log_content = [], log_category = ''c'', log_creator = ''bob'',
      log_keyword1 = (if sub = 1 then ''hello'' else ''hell''),
      log_keyword2 = None, log_keyword3 = None, log_chat_id = 100\<rparr>"

text \<open>A store in which exactly the listed statements throw.\<close>

abbreviation ex_faults :: "statement list \<Rightarrow> faults" where
  "ex_faults sts \<equiv> (\<lambda>st. if st \<in> set sts then Some ''D1_ERROR'' else None)"

section \<open>Predicates used in the statements\<close>

text \<open>Every row of the ledger with id \<open>i\<close> has left the pending state.\<close>

definition marked :: "D1Database \<Rightarrow> int \<Rightarrow> bool" where
  "marked db i = (\<forall>l \<in> set (push_logs db). pl_id l = i \<longrightarrow> push_status l = 1)"

section \<open>Properties of the feed parser\<close>


lemma match_at_shape:
  "match_at dotall opn cl s = Some m \<Longrightarrow> \<exists>g. m = [opn @ g @ cl, g]"
  by (auto simp: match_at_def split: if_splits)

lemma regex_match_shape:
  "regex_match dotall opn cl s = Some m \<Longrightarrow> \<exists>g. m = [opn @ g @ cl, g]"
  by (induction s) (auto dest: match_at_shape split: option.splits)

lemma or_else_shape:
  assumes "or_else (regex_match d1 o1 c1 s) (regex_match d2 o2 c2 s) = Some m"
  shows "\<exists>w g. m = [w, g]"
  using assms by (auto simp: or_else_def split: option.splits dest: regex_match_shape)

lemma post_id_at_shape:
  "post_id_at s = Some m \<Longrightarrow>
     \<exists>ds. m = [''post-'' @ ds @ ''-'', ds] \<and> ds \<noteq> [] \<and> (\<forall>c \<in> set ds. is_digit c)"
  by (auto simp: post_id_at_def Let_def split: if_splits dest: set_takeWhileD)

lemma match_post_id_shape:
  "match_post_id s = Some m \<Longrightarrow>
     \<exists>ds. m = [''post-'' @ ds @ ''-'', ds] \<and> ds \<noteq> [] \<and> (\<forall>c \<in> set ds. is_digit c)"
  by (induction s) (auto dest: post_id_at_shape split: option.splits)

lemma trimmed_or_shape:
  "m = None \<or> (\<exists>w g. m = Some [w, g]) \<Longrightarrow>
   trimmed_or m dflt = Inr (case m of None \<Rightarrow> dflt | Some a \<Rightarrow> trim (a ! 1))"
  by (auto simp: trimmed_or_def group1_def)

lemma decimal_nonempty: "decimal n \<noteq> []"
  by (subst decimal.simps) simp

lemma decimal_digits: "c \<in> set (decimal n) \<Longrightarrow> is_digit c"
proof (induction n rule: decimal.induct)
  case (1 n)
  show ?case
  proof (cases "n < 10")
    case True
    with "1.prems" show ?thesis
      by (subst (asm) decimal.simps) (simp add: is_digit_def)
  next
    case False
    with "1.prems" have "c \<in> set (decimal (n div 10)) \<or> c = char_of (48 + n mod 10)"
      by (subst (asm) decimal.simps) auto
    then show ?thesis
    proof
      assume "c \<in> set (decimal (n div 10))"
      with False "1.IH" show ?thesis by simp
    next
      assume "c = char_of (48 + n mod 10)"
      moreover have "n mod 10 < 10" by simp
      ultimately show ?thesis by (simp add: is_digit_def)
    qed
  qed
qed

lemma char_of_digit_inj:
  "a < 10 \<Longrightarrow> b < 10 \<Longrightarrow> (char_of (48 + a) :: char) = char_of (48 + b) \<Longrightarrow> a = (b::nat)"
proof -
  assume a: "a < 10" and b: "b < 10" and e: "(char_of (48 + a) :: char) = char_of (48 + b)"
  from e have "(of_char (char_of (48 + a) :: char) :: nat) = of_char (char_of (48 + b) :: char)"
    by simp
  with a b show ?thesis by (simp add: of_char_of)
qed

lemma decimal_inj: "decimal m = decimal n \<Longrightarrow> m = n"
proof (induction m arbitrary: n rule: decimal.induct)
  case (1 m)
  show ?case
  proof (cases "m < 10")
    case mT: True
    show ?thesis
    proof (cases "n < 10")
      case True
      with mT "1.prems" show ?thesis
        by (subst (asm) (1 2) decimal.simps) (simp add: char_of_digit_inj)
    next
      case False
      have "length (decimal m) = 1" using mT by (subst decimal.simps) simp
      moreover have "length (decimal n) \<ge> 2" using False decimal_nonempty[of "n div 10"]
        by (subst decimal.simps) (simp add: Suc_le_eq)
      ultimately show ?thesis using "1.prems" by simp
    qed
  next
    case mF: False
    show ?thesis
    proof (cases "n < 10")
      case True
      have "length (decimal n) = 1" using True by (subst decimal.simps) simp
      moreover have "length (decimal m) \<ge> 2" using mF decimal_nonempty[of "m div 10"]
        by (subst decimal.simps) (simp add: Suc_le_eq)
      ultimately show ?thesis using "1.prems" by simp
    next
      case False
      have "decimal (m div 10) @ [char_of (48 + m mod 10)]
            = decimal (n div 10) @ [char_of (48 + n mod 10)]"
        using "1.prems" mF False by (subst (asm) (1 2) decimal.simps) simp
      then have d: "decimal (m div 10) = decimal (n div 10)"
        and c: "(char_of (48 + m mod 10) :: char) = char_of (48 + n mod 10)"
        by simp_all
      from d mF "1.IH" have "m div 10 = n div 10" by simp
      moreover from c have "m mod 10 = n mod 10" by (intro char_of_digit_inj) simp_all
      ultimately show ?thesis by (metis div_mult_mod_eq)
    qed
  qed
qed

lemma field_match_shapes:
  "titleMatch item = None \<or> (\<exists>w g. titleMatch item = Some [w, g])"
  "descriptionMatch item = None \<or> (\<exists>w g. descriptionMatch item = Some [w, g])"
  "pubDateMatch item = None \<or> (\<exists>w g. pubDateMatch item = Some [w, g])"
  "categoryMatch item = None \<or> (\<exists>w g. categoryMatch item = Some [w, g])"
  "creatorMatch item = None \<or> (\<exists>w g. creatorMatch item = Some [w, g])"
  "linkMatch item = None \<or> (\<exists>w g. linkMatch item = Some [w, g])"
  unfolding titleMatch_def descriptionMatch_def pubDateMatch_def categoryMatch_def
    creatorMatch_def linkMatch_def
  by (metis or_else_shape not_Some_eq, metis or_else_shape not_Some_eq,
      metis regex_match_shape not_Some_eq, metis or_else_shape not_Some_eq,
      metis or_else_shape not_Some_eq, metis regex_match_shape not_Some_eq)

lemma link_step:
  "(case linkMatch item of None \<Rightarrow> Inr [] | Some m \<Rightarrow> group1 m) = Inr (link_of item)"
  using field_match_shapes(6)[of item] by (auto simp: link_of_def group1_def)

lemma id_step:
  "(case match_post_id link of None \<Rightarrow> Inr (''item-'' @ decimal index) | Some m \<Rightarrow> group1 m)
   = Inr (case match_post_id link of None \<Rightarrow> ''item-'' @ decimal index | Some m \<Rightarrow> m ! 1)"
  by (auto simp: group1_def split: option.splits dest: match_post_id_shape)

lemma parse_item_eq:
  "parse_item index item =
     Inr \<lparr>rss_id = (case match_post_id (link_of item) of
                      None \<Rightarrow> ''item-'' @ decimal index | Some m \<Rightarrow> m ! 1),
          rss_title = (case titleMatch item of None \<Rightarrow> no_title | Some m \<Rightarrow> trim (m ! 1)),
          rss_description = (case descriptionMatch item of None \<Rightarrow> [] | Some m \<Rightarrow> trim (m ! 1)),
          rss_pubDate = (case pubDateMatch item of None \<Rightarrow> [] | Some m \<Rightarrow> trim (m ! 1)),
          rss_category = (case categoryMatch item of None \<Rightarrow> no_category | Some m \<Rightarrow> trim (m ! 1)),
          rss_creator = (case creatorMatch item of None \<Rightarrow> no_creator | Some m \<Rightarrow> trim (m ! 1))\<rparr>"
  unfolding parse_item_def link_step id_step
  by (simp add: trimmed_or_shape field_match_shapes)

lemma forEach_items_ok:
  "\<exists>ps. forEach_items index items = Inr ps \<and> length ps = length items \<and>
        (\<forall>i < length items. parse_item (index + i) (items ! i) = Inr (ps ! i))"
proof (induction items arbitrary: index)
  case Nil
  then show ?case by simp
next
  case (Cons item items)
  obtain p where p: "parse_item index item = Inr p" using parse_item_eq by blast
  from Cons.IH[of "Suc index"] obtain ps where ps: "forEach_items (Suc index) items = Inr ps"
    "length ps = length items"
    "\<forall>i < length items. parse_item (Suc index + i) (items ! i) = Inr (ps ! i)" by blast
  have "\<forall>i < length (item # items). parse_item (index + i) ((item # items) ! i) = Inr ((p # ps) ! i)"
  proof (intro allI impI)
    fix i assume "i < length (item # items)"
    then show "parse_item (index + i) ((item # items) ! i) = Inr ((p # ps) ! i)"
      using p ps(3) by (cases i) auto
  qed
  with p ps(1,2) show ?case by simp
qed

lemma match_all_items_length: "length (match_all_items skip s) \<le> length s"
proof (induction skip s rule: match_all_items.induct)
  case (1 skip)
  then show ?case by simp
next
  case (2 skip c cs)
  then show ?case by simp
next
  case (3 c cs)
  then show ?case by (auto split: option.splits)
qed


lemma startsWith_prefix: "startsWith s k = prefix k s"
  by (induction s k rule: startsWith.induct) auto

lemma js_includes_sublist: "js_includes s k = sublist k s"
  by (induction s) (auto simp: startsWith_prefix sublist_Cons_right)

lemma post_id_at_prefix:
  "post_id_at s = Some m \<Longrightarrow> prefix (m ! 0) s"
proof -
  assume a: "post_id_at s = Some m"
  then have p: "prefix ''post-'' s" by (auto simp: post_id_at_def startsWith_prefix split: if_splits)
  then obtain r where r: "s = ''post-'' @ r" by (auto simp: prefix_def)
  let ?ds = "takeWhile is_digit r"
  from a r have m: "m = [''post-'' @ ?ds @ ''-'', ?ds]" and d: "prefix ''-'' (dropWhile is_digit r)"
    by (auto simp: post_id_at_def Let_def startsWith_prefix dropWhile_eq_drop split: if_splits)
  from d obtain t where "dropWhile is_digit r = ''-'' @ t" by (auto simp: prefix_def)
  then have "r = ?ds @ ''-'' @ t" by (metis takeWhile_dropWhile_id)
  then have "s = (''post-'' @ ?ds @ ''-'') @ t" using r by simp
  then show ?thesis unfolding m by (metis nth_Cons_0 prefixI)
qed

lemma match_post_id_sublist:
  "match_post_id s = Some m \<Longrightarrow> sublist (m ! 0) s"
proof (induction s)
  case Nil
  then show ?case by (auto dest: post_id_at_prefix)
next
  case (Cons c cs)
  then show ?case
    by (auto split: option.splits dest!: post_id_at_prefix simp: sublist_Cons_right)
qed

text \<open>
  Claim C8. For every input text the parser returns a finite list of posts and never raises:
  the \<open>try\<close> block of \<open>parseRSSXML\<close> completes without an exception on every text, so the
  \<open>catch\<close> is never entered, and the list it returns has at most as many posts as the text has
  characters.
\<close>

theorem parseRSSXML_total:
  "\<exists>ps. parseRSSXML_try xmlText = Inr ps \<and> parseRSSXML xmlText = ps \<and>
        length ps \<le> length xmlText"
proof -
  from forEach_items_ok[of 0 "match_all_items 0 xmlText"]
  obtain ps where ps: "parseRSSXML_try xmlText = Inr ps"
    "length ps = length (match_all_items 0 xmlText)"
    unfolding parseRSSXML_try_def by blast
  moreover have "parseRSSXML xmlText = ps" using ps(1) by (simp add: parseRSSXML_def)
  moreover have "length ps \<le> length xmlText" using ps(2) match_all_items_length[of 0 xmlText] by simp
  ultimately show ?thesis by blast
qed

lemma parseRSSXML_nth:
  assumes "i < length (match_all_items 0 xmlText)"
  shows "parse_item i (match_all_items 0 xmlText ! i) = Inr (parseRSSXML xmlText ! i)"
    and "length (parseRSSXML xmlText) = length (match_all_items 0 xmlText)"
proof -
  from forEach_items_ok[of 0 "match_all_items 0 xmlText"]
  obtain ps where ps: "parseRSSXML_try xmlText = Inr ps"
    "length ps = length (match_all_items 0 xmlText)"
    "\<forall>i < length (match_all_items 0 xmlText).
        parse_item (0 + i) (match_all_items 0 xmlText ! i) = Inr (ps ! i)"
    unfolding parseRSSXML_try_def by blast
  have e: "parseRSSXML xmlText = ps" using ps(1) by (simp add: parseRSSXML_def)
  show "parse_item i (match_all_items 0 xmlText ! i) = Inr (parseRSSXML xmlText ! i)"
    using ps(3) assms e by simp
  show "length (parseRSSXML xmlText) = length (match_all_items 0 xmlText)"
    using ps(2) e by simp
qed

lemma parseRSSXML_nth_eq:
  assumes "i < length (match_all_items 0 xmlText)"
  shows "parseRSSXML xmlText ! i =
     \<lparr>rss_id = (case match_post_id (link_of (match_all_items 0 xmlText ! i)) of
                      None \<Rightarrow> ''item-'' @ decimal i | Some m \<Rightarrow> m ! 1),
          rss_title = (case titleMatch (match_all_items 0 xmlText ! i) of
                         None \<Rightarrow> no_title | Some m \<Rightarrow> trim (m ! 1)),
          rss_description = (case descriptionMatch (match_all_items 0 xmlText ! i) of
                         None \<Rightarrow> [] | Some m \<Rightarrow> trim (m ! 1)),
          rss_pubDate = (case pubDateMatch (match_all_items 0 xmlText ! i) of
                         None \<Rightarrow> [] | Some m \<Rightarrow> trim (m ! 1)),
          rss_category = (case categoryMatch (match_all_items 0 xmlText ! i) of
                         None \<Rightarrow> no_category | Some m \<Rightarrow> trim (m ! 1)),
          rss_creator = (case creatorMatch (match_all_items 0 xmlText ! i) of
                         None \<Rightarrow> no_creator | Some m \<Rightarrow> trim (m ! 1))\<rparr>"
proof -
  have "Inr (parseRSSXML xmlText ! i) = parse_item i (match_all_items 0 xmlText ! i)"
    using parseRSSXML_nth(1)[OF assms] by simp
  then show ?thesis unfolding parse_item_eq by simp
qed

lemma rss_id_cases:
  assumes "i < length (match_all_items 0 xmlText)"
  shows "rss_id (parseRSSXML xmlText ! i) = ''item-'' @ decimal i \<or>
         (rss_id (parseRSSXML xmlText ! i) \<noteq> [] \<and>
          (\<forall>c \<in> set (rss_id (parseRSSXML xmlText ! i)). is_digit c))"
proof -
  let ?item = "match_all_items 0 xmlText ! i"
  have "rss_id (parseRSSXML xmlText ! i) =
        (case match_post_id (link_of ?item) of
           None \<Rightarrow> ''item-'' @ decimal i | Some m \<Rightarrow> m ! 1)"
    by (subst parseRSSXML_nth_eq[OF assms]) simp
  then show ?thesis
    by (cases "match_post_id (link_of ?item)") (auto dest!: match_post_id_shape)
qed

lemma fallback_not_digits: "\<not> (\<forall>c \<in> set (''item-'' @ decimal n). is_digit c)"
  by (simp add: is_digit_def)

lemma fallback_unique:
  assumes i: "i < length (match_all_items 0 xmlText)"
    and j: "j < length (match_all_items 0 xmlText)"
    and ne: "j \<noteq> i"
    and fb: "rss_id (parseRSSXML xmlText ! i) = ''item-'' @ decimal i"
  shows "rss_id (parseRSSXML xmlText ! j) \<noteq> rss_id (parseRSSXML xmlText ! i)"
proof
  assume eq: "rss_id (parseRSSXML xmlText ! j) = rss_id (parseRSSXML xmlText ! i)"
  from rss_id_cases[OF j] show False
  proof
    assume "rss_id (parseRSSXML xmlText ! j) = ''item-'' @ decimal j"
    with eq fb have "decimal j = decimal i" by simp
    with ne show False by (auto dest: decimal_inj)
  next
    assume "rss_id (parseRSSXML xmlText ! j) \<noteq> [] \<and>
            (\<forall>c \<in> set (rss_id (parseRSSXML xmlText ! j)). is_digit c)"
    with eq fb fallback_not_digits[of i] show False by simp
  qed
qed

lemma prefix_append_take:
  assumes "prefix p (x @ y)" "length p \<le> length x + n"
  shows "prefix p (x @ take n y)"
proof -
  have le: "length p - length x \<le> n" using assms(2) by arith
  from assms(1) have "p = take (length p) (x @ y)"
    by (metis append_eq_conv_conj prefix_def)
  also have "\<dots> = take (length p) (x @ take n y)"
    using le by (simp add: min_def)
  finally have "p = take (length p) (x @ take n y)" .
  then show ?thesis by (metis take_is_prefix)
qed

lemma no_early_start:
  assumes "\<not> sublist k ((c # a) @ butlast k)"
  shows "\<not> startsWith ((c # a) @ k @ r) k"
proof
  assume "startsWith ((c # a) @ k @ r) k"
  then have "prefix k ((c # a) @ (k @ r))" by (simp add: startsWith_prefix)
  then have "prefix k ((c # a) @ take (length k - 1) (k @ r))"
    by (rule prefix_append_take) simp
  then have "prefix k ((c # a) @ butlast k)" by (simp add: butlast_conv_take)
  then have "sublist k ((c # a) @ butlast k)" by (rule prefix_imp_sublist)
  with assms show False by simp
qed

lemma lazy_body_complete:
  assumes "\<forall>c \<in> set g. \<not> is_line_terminator c" "\<not> sublist cl (g @ butlast cl)"
  shows "lazy_body False cl (g @ cl @ b) = Some g"
  using assms
proof (induction g)
  case Nil
  show ?case
  proof (cases "cl @ b")
    case Nil
    then show ?thesis by simp
  next
    case (Cons x xs)
    have "startsWith (cl @ b) cl" by (simp add: startsWith_prefix)
    then show ?thesis using Cons by simp
  qed
next
  case (Cons c g)
  from Cons.prems(2) have n: "\<not> startsWith ((c # g) @ cl @ b) cl" by (rule no_early_start)
  from Cons.prems(2) have "\<not> sublist cl (g @ butlast cl)"
    by (auto simp: sublist_Cons_right)
  with Cons.IH Cons.prems(1) have "lazy_body False cl (g @ cl @ b) = Some g" by simp
  with n Cons.prems(1) show ?case by simp
qed

lemma regex_match_complete:
  assumes "opn \<noteq> []" "\<not> sublist opn (a @ butlast opn)" "lazy_body d cl r = Some g"
  shows "regex_match d opn cl (a @ opn @ r) = Some [opn @ g @ cl, g]"
  using assms(2)
proof (induction a)
  case Nil
  have m: "match_at d opn cl (opn @ r) = Some [opn @ g @ cl, g]"
    by (simp add: match_at_def startsWith_prefix assms(3))
  from assms(1) obtain x xs where "opn @ r = x # xs" by (cases opn) auto
  with m show ?case by simp
next
  case (Cons c a)
  from Cons.prems have n: "\<not> startsWith ((c # a) @ opn @ r) opn" by (rule no_early_start)
  then have m: "match_at d opn cl (c # a @ opn @ r) = None" by (simp add: match_at_def)
  from Cons.prems have "\<not> sublist opn (a @ butlast opn)" by (auto simp: sublist_Cons_right)
  with Cons.IH m show ?case by simp
qed

lemma link_of_complete:
  assumes "item = a @ ''<link>'' @ g @ ''</link>'' @ b"
    and "\<not> sublist ''<link>'' (a @ ''<link'')"
    and "\<not> sublist ''</link>'' (g @ ''</link'')"
    and "\<forall>c \<in> set g. \<not> is_line_terminator c"
  shows "link_of item = g"
proof -
  have l: "lazy_body False ''</link>'' (g @ ''</link>'' @ b) = Some g"
    by (rule lazy_body_complete) (use assms(3,4) in simp_all)
  have "regex_match False ''<link>'' ''</link>'' (a @ ''<link>'' @ (g @ ''</link>'' @ b))
          = Some [''<link>'' @ g @ ''</link>'', g]"
    by (rule regex_match_complete[OF _ _ l]) (use assms(2) in simp_all)
  then show ?thesis unfolding link_of_def linkMatch_def assms(1) by simp
qed

lemma post_id_at_hit:
  assumes "ds \<noteq> []" "\<forall>c \<in> set ds. is_digit c"
  shows "post_id_at (''post-'' @ ds @ ''-'' @ rest) = Some [''post-'' @ ds @ ''-'', ds]"
proof -
  have "\<not> is_digit CHR ''-''" by (simp add: is_digit_def)
  then have t: "takeWhile is_digit (ds @ ''-'' @ rest) = ds"
    using assms(2) by (simp add: takeWhile_append2)
  have s: "startsWith (''post-'' @ ds @ ''-'' @ rest) ''post-''" by (simp add: startsWith_prefix)
  have d: "drop 5 (''post-'' @ ds @ ''-'' @ rest) = ds @ ''-'' @ rest" by simp
  show ?thesis
    unfolding post_id_at_def Let_def d t using assms(1) s
    by (simp add: startsWith_prefix)
qed

lemma match_post_id_complete:
  assumes "ds \<noteq> []" "\<forall>c \<in> set ds. is_digit c" "\<not> sublist ''post-'' (pre @ ''post'')"
  shows "match_post_id (pre @ ''post-'' @ ds @ ''-'' @ rest) = Some [''post-'' @ ds @ ''-'', ds]"
  using assms(3)
proof (induction pre)
  case Nil
  from post_id_at_hit[OF assms(1,2), of rest] show ?case by simp
next
  case (Cons c pre)
  have "\<not> sublist ''post-'' ((c # pre) @ butlast ''post-'')" using Cons.prems by simp
  then have "\<not> startsWith ((c # pre) @ ''post-'' @ (ds @ ''-'' @ rest)) ''post-''"
    by (rule no_early_start)
  then have "post_id_at ((c # pre) @ ''post-'' @ (ds @ ''-'' @ rest)) = None"
    unfolding post_id_at_def by (simp only: if_False)
  then have m: "post_id_at (c # pre @ ''post-'' @ ds @ ''-'' @ rest) = None" by simp
  from Cons.prems have "\<not> sublist ''post-'' (pre @ ''post'')" by (auto simp: sublist_Cons_right)
  with Cons.IH m show ?case by simp
qed

lemma match_post_id_found:
  assumes "ds \<noteq> []" "\<forall>c \<in> set ds. is_digit c"
  shows "match_post_id (pre @ ''post-'' @ ds @ ''-'' @ rest) \<noteq> None"
proof (induction pre)
  case Nil
  from post_id_at_hit[OF assms(1,2), of rest] show ?case by simp
next
  case (Cons c pre)
  then show ?case by (cases "post_id_at (c # pre @ ''post-'' @ ds @ ''-'' @ rest)") simp_all
qed

text \<open>
  Claim C9. Every feed item gives a post (the callback never throws on it). A field whose
  pattern does not match the item is replaced by its own default, whatever the other fields
  are: the title, the category and the author by their placeholders, the description by the
  empty string. The identifier is the run of digits of the first \<open>post-<digits>-\<close> in the
  link when there is one, and otherwise the text \<open>item-\<close> followed by the position of the
  item, which no other post of the same parse has as its identifier. The link is the text
  between the first \<open><link>\<close> of the item and the next \<open></link>\<close>, when no line end lies
  between them. Whenever the link contains \<open>post-\<close>, a run of one or more digits and \<open>-\<close>, the
  pattern matches and the identifier is a run of digits taken from such a place of the link;
  it is the run \<open>ds\<close> itself when no \<open>post-\<close> begins before that place.
\<close>

theorem parseRSSXML_fields:
  assumes "i < length (match_all_items 0 xmlText)"
  shows "parse_item i (match_all_items 0 xmlText ! i) = Inr (parseRSSXML xmlText ! i)
    \<and> (titleMatch (match_all_items 0 xmlText ! i) = None
         \<longrightarrow> rss_title (parseRSSXML xmlText ! i) = no_title)
    \<and> (categoryMatch (match_all_items 0 xmlText ! i) = None
         \<longrightarrow> rss_category (parseRSSXML xmlText ! i) = no_category)
    \<and> (creatorMatch (match_all_items 0 xmlText ! i) = None
         \<longrightarrow> rss_creator (parseRSSXML xmlText ! i) = no_creator)
    \<and> (descriptionMatch (match_all_items 0 xmlText ! i) = None
         \<longrightarrow> rss_description (parseRSSXML xmlText ! i) = [])
    \<and> (\<forall>m. match_post_id (link_of (match_all_items 0 xmlText ! i)) = Some m
         \<longrightarrow> rss_id (parseRSSXML xmlText ! i) = m ! 1 \<and> m ! 1 \<noteq> []
             \<and> (\<forall>c \<in> set (m ! 1). is_digit c)
             \<and> sublist (''post-'' @ m ! 1 @ ''-'') (link_of (match_all_items 0 xmlText ! i)))
    \<and> (match_post_id (link_of (match_all_items 0 xmlText ! i)) = None
         \<longrightarrow> rss_id (parseRSSXML xmlText ! i) = ''item-'' @ decimal i
             \<and> (\<forall>j < length (parseRSSXML xmlText). j \<noteq> i
                  \<longrightarrow> rss_id (parseRSSXML xmlText ! j) \<noteq> rss_id (parseRSSXML xmlText ! i)))
    \<and> (\<forall>a g b. match_all_items 0 xmlText ! i = a @ ''<link>'' @ g @ ''</link>'' @ b \<and>
           \<not> sublist ''<link>'' (a @ ''<link'') \<and> \<not> sublist ''</link>'' (g @ ''</link'') \<and>
           (\<forall>c \<in> set g. \<not> is_line_terminator c)
         \<longrightarrow> link_of (match_all_items 0 xmlText ! i) = g)
    \<and> (\<forall>pre ds rest.
           link_of (match_all_items 0 xmlText ! i) = pre @ ''post-'' @ ds @ ''-'' @ rest \<and>
           ds \<noteq> [] \<and> (\<forall>c \<in> set ds. is_digit c)
         \<longrightarrow> match_post_id (link_of (match_all_items 0 xmlText ! i)) \<noteq> None
             \<and> rss_id (parseRSSXML xmlText ! i) \<noteq> []
             \<and> (\<forall>c \<in> set (rss_id (parseRSSXML xmlText ! i)). is_digit c)
             \<and> sublist (''post-'' @ rss_id (parseRSSXML xmlText ! i) @ ''-'')
                  (link_of (match_all_items 0 xmlText ! i))
             \<and> (\<not> sublist ''post-'' (pre @ ''post'')
                  \<longrightarrow> rss_id (parseRSSXML xmlText ! i) = ds))"
proof -
  let ?item = "match_all_items 0 xmlText ! i"
  let ?p = "parseRSSXML xmlText ! i"
  have p: "parse_item i ?item = Inr ?p" by (rule parseRSSXML_nth(1)[OF assms])
  note eq = parseRSSXML_nth_eq[OF assms]
  have t: "titleMatch ?item = None \<longrightarrow> rss_title ?p = no_title"
    by (subst eq) simp
  have c: "categoryMatch ?item = None \<longrightarrow> rss_category ?p = no_category"
    by (subst eq) simp
  have a: "creatorMatch ?item = None \<longrightarrow> rss_creator ?p = no_creator"
    by (subst eq) simp
  have d: "descriptionMatch ?item = None \<longrightarrow> rss_description ?p = []"
    by (subst eq) simp
  have idv: "rss_id ?p = (case match_post_id (link_of ?item) of
                            None \<Rightarrow> ''item-'' @ decimal i | Some m \<Rightarrow> m ! 1)"
    by (subst eq) simp
  have n: "\<forall>m. match_post_id (link_of ?item) = Some m
         \<longrightarrow> rss_id ?p = m ! 1 \<and> m ! 1 \<noteq> [] \<and> (\<forall>c \<in> set (m ! 1). is_digit c)
             \<and> sublist (''post-'' @ m ! 1 @ ''-'') (link_of ?item)"
  proof (intro allI impI)
    fix m assume m: "match_post_id (link_of ?item) = Some m"
    from match_post_id_shape[OF m] obtain ds where ds:
      "m = [''post-'' @ ds @ ''-'', ds]" "ds \<noteq> []" "\<forall>c \<in> set ds. is_digit c" by blast
    from match_post_id_sublist[OF m] ds(1)
    have "sublist (''post-'' @ ds @ ''-'') (link_of ?item)" by simp
    with ds idv m show "rss_id ?p = m ! 1 \<and> m ! 1 \<noteq> [] \<and> (\<forall>c \<in> set (m ! 1). is_digit c)
             \<and> sublist (''post-'' @ m ! 1 @ ''-'') (link_of ?item)" by simp
  qed
  have f: "match_post_id (link_of ?item) = None
         \<longrightarrow> rss_id ?p = ''item-'' @ decimal i
             \<and> (\<forall>j < length (parseRSSXML xmlText). j \<noteq> i
                  \<longrightarrow> rss_id (parseRSSXML xmlText ! j) \<noteq> rss_id ?p)"
  proof
    assume "match_post_id (link_of ?item) = None"
    with idv have fb: "rss_id ?p = ''item-'' @ decimal i" by simp
    have "\<forall>j < length (parseRSSXML xmlText). j \<noteq> i
                  \<longrightarrow> rss_id (parseRSSXML xmlText ! j) \<noteq> rss_id ?p"
      using fallback_unique[OF assms _ _ fb] parseRSSXML_nth(2)[OF assms] by simp
    with fb show "rss_id ?p = ''item-'' @ decimal i
             \<and> (\<forall>j < length (parseRSSXML xmlText). j \<noteq> i
                  \<longrightarrow> rss_id (parseRSSXML xmlText ! j) \<noteq> rss_id ?p)" by simp
  qed
  have lk: "\<forall>a g b. ?item = a @ ''<link>'' @ g @ ''</link>'' @ b \<and>
           \<not> sublist ''<link>'' (a @ ''<link'') \<and> \<not> sublist ''</link>'' (g @ ''</link'') \<and>
           (\<forall>c \<in> set g. \<not> is_line_terminator c)
         \<longrightarrow> link_of ?item = g"
  proof (intro allI impI, elim conjE)
    fix a g b
    assume "?item = a @ ''<link>'' @ g @ ''</link>'' @ b"
      "\<not> sublist ''<link>'' (a @ ''<link'')" "\<not> sublist ''</link>'' (g @ ''</link'')"
      "\<forall>c \<in> set g. \<not> is_line_terminator c"
    then show "link_of ?item = g" by (rule link_of_complete)
  qed
  have nm: "\<forall>pre ds rest.
           link_of ?item = pre @ ''post-'' @ ds @ ''-'' @ rest \<and>
           ds \<noteq> [] \<and> (\<forall>c \<in> set ds. is_digit c)
         \<longrightarrow> match_post_id (link_of ?item) \<noteq> None
             \<and> rss_id ?p \<noteq> []
             \<and> (\<forall>c \<in> set (rss_id ?p). is_digit c)
             \<and> sublist (''post-'' @ rss_id ?p @ ''-'') (link_of ?item)
             \<and> (\<not> sublist ''post-'' (pre @ ''post'') \<longrightarrow> rss_id ?p = ds)"
  proof (intro allI impI, elim conjE)
    fix pre ds rest
    assume l: "link_of ?item = pre @ ''post-'' @ ds @ ''-'' @ rest"
      and ds: "ds \<noteq> []" "\<forall>c \<in> set ds. is_digit c"
    from match_post_id_found[OF ds, of pre rest] l
    have ex: "match_post_id (link_of ?item) \<noteq> None" by simp
    then obtain m where m: "match_post_id (link_of ?item) = Some m" by blast
    from n m have nn: "rss_id ?p = m ! 1" "m ! 1 \<noteq> []" "\<forall>c \<in> set (m ! 1). is_digit c"
      "sublist (''post-'' @ m ! 1 @ ''-'') (link_of ?item)" by blast+
    have lm: "rss_id ?p = ds" if "\<not> sublist ''post-'' (pre @ ''post'')"
    proof -
      from match_post_id_complete[OF ds that, of rest] l
      have "match_post_id (link_of ?item) = Some [''post-'' @ ds @ ''-'', ds]" by simp
      with idv show ?thesis by simp
    qed
    from ex nn lm
    show "match_post_id (link_of ?item) \<noteq> None
             \<and> rss_id ?p \<noteq> []
             \<and> (\<forall>c \<in> set (rss_id ?p). is_digit c)
             \<and> sublist (''post-'' @ rss_id ?p @ ''-'') (link_of ?item)
             \<and> (\<not> sublist ''post-'' (pre @ ''post'') \<longrightarrow> rss_id ?p = ds)"
      by simp
  qed
  show ?thesis by (intro conjI p t c a d n f lk nm)
qed


text \<open>
  The statement at a feed of two items. The first has the link \<open>post-42-1\<close> and gets the
  identifier \<open>42\<close>; the second has neither a title nor a link and gets the placeholder title and
  the identifier \<open>item-1\<close>.
\<close>

theorem parseRSSXML_fields_witness:
  "(1::nat) < length (match_all_items 0 ''<item><link>post-42-1</link></item><item></item>'')
   \<and> titleMatch (match_all_items 0 ''<item><link>post-42-1</link></item><item></item>'' ! 1) = None
   \<and> match_post_id
        (link_of (match_all_items 0 ''<item><link>post-42-1</link></item><item></item>'' ! 1)) = None
   \<and> rss_title (parseRSSXML ''<item><link>post-42-1</link></item><item></item>'' ! 1) = no_title
   \<and> rss_id (parseRSSXML ''<item><link>post-42-1</link></item><item></item>'' ! 1) = ''item-1''
   \<and> rss_id (parseRSSXML ''<item><link>post-42-1</link></item><item></item>'' ! 0)
        \<noteq> rss_id (parseRSSXML ''<item><link>post-42-1</link></item><item></item>'' ! 1)
   \<and> match_all_items 0 ''<item><link>post-42-1</link></item><item></item>'' ! 0
        = ''<item>'' @ ''<link>'' @ ''post-42-1'' @ ''</link>'' @ ''</item>''
   \<and> link_of (match_all_items 0 ''<item><link>post-42-1</link></item><item></item>'' ! 0)
        = [] @ ''post-'' @ ''42'' @ ''-'' @ ''1''
   \<and> rss_id (parseRSSXML ''<item><link>post-42-1</link></item><item></item>'' ! 0) = ''42''"
proof -
  let ?x = "''<item><link>post-42-1</link></item><item></item>''"
  have h: "(1::nat) < length (match_all_items 0 ?x)" by code_simp
  have t: "titleMatch (match_all_items 0 ?x ! 1) = None" by code_simp
  have l: "match_post_id (link_of (match_all_items 0 ?x ! 1)) = None" by code_simp
  have d: "decimal 1 = ''1''" by code_simp
  have n: "(0::nat) < length (parseRSSXML ?x)" by code_simp
  note inst = parseRSSXML_fields[OF h]
  from inst t have c1: "rss_title (parseRSSXML ?x ! 1) = no_title" by blast
  from inst l have c2: "rss_id (parseRSSXML ?x ! 1) = ''item-'' @ decimal 1"
    and c3: "\<forall>j < length (parseRSSXML ?x). j \<noteq> 1
               \<longrightarrow> rss_id (parseRSSXML ?x ! j) \<noteq> rss_id (parseRSSXML ?x ! 1)"
    by blast+
  from c2 d have c4: "rss_id (parseRSSXML ?x ! 1) = ''item-1''" by simp
  from c3 n have c5: "rss_id (parseRSSXML ?x ! 0) \<noteq> rss_id (parseRSSXML ?x ! 1)" by simp
  have h0: "(0::nat) < length (match_all_items 0 ?x)" by code_simp
  have i0: "match_all_items 0 ?x ! 0
              = ''<item>'' @ ''<link>'' @ ''post-42-1'' @ ''</link>'' @ ''</item>''"
    by code_simp
  have a1: "\<not> sublist ''<link>'' (''<item>'' @ ''<link'')"
    unfolding js_includes_sublist[symmetric] by code_simp
  have a2: "\<not> sublist ''</link>'' (''post-42-1'' @ ''</link'')"
    unfolding js_includes_sublist[symmetric] by code_simp
  have a3: "\<forall>c \<in> set ''post-42-1''. \<not> is_line_terminator c"
    by (simp add: is_line_terminator_def)
  note inst0 = parseRSSXML_fields[OF h0]
  note link0 = inst0[THEN conjunct2, THEN conjunct2, THEN conjunct2, THEN conjunct2,
      THEN conjunct2, THEN conjunct2, THEN conjunct2, THEN conjunct1]
  note id0 = inst0[THEN conjunct2, THEN conjunct2, THEN conjunct2, THEN conjunct2,
      THEN conjunct2, THEN conjunct2, THEN conjunct2, THEN conjunct2]
  have "link_of (match_all_items 0 ?x ! 0) = ''post-42-1''"
    by (rule link0[THEN spec[where x = "''<item>''"], THEN spec[where x = "''post-42-1''"],
          THEN spec[where x = "''</item>''"], THEN mp])
       (intro conjI i0 a1 a2 a3)
  then have l0: "link_of (match_all_items 0 ?x ! 0) = [] @ ''post-'' @ ''42'' @ ''-'' @ ''1''"
    by simp
  have b1: "''42'' \<noteq> []" by simp
  have b2: "\<forall>c \<in> set ''42''. is_digit c" by (simp add: is_digit_def)
  have b3: "\<not> sublist ''post-'' ([] @ ''post'')"
    unfolding js_includes_sublist[symmetric] by code_simp
  have c6: "rss_id (parseRSSXML ?x ! 0) = ''42''"
    by (rule id0[THEN spec[where x = "[]"], THEN spec[where x = "''42''"],
          THEN spec[where x = "''1''"], THEN mp, THEN conjunct2, THEN conjunct2,
          THEN conjunct2, THEN conjunct2, THEN mp])
       (intro conjI l0 b1 b2, rule b3)
  show ?thesis by (intro conjI h t l c1 c4 c5 i0 l0 c6)
qed

section \<open>Properties of the matcher\<close>

lemma searchText_eq:
  "searchText lc post =
     lc (title post @ '' '' @ content post @ '' '' @ category post @ '' '' @ creator post)"
  by (simp add: searchText_def)

lemma truthy_map_option:
  assumes "\<forall>s. (lc s = []) = (s = [])"
  shows "truthy (map_option lc k) = (\<exists>x. k = Some x \<and> x \<noteq> [])"
  using assms by (cases k) (simp_all add: truthy_def)

lemma matchKeywords_lowered:
  "matchKeywords lc post keywords =
     (lc (keyword1 keywords) \<noteq> [] \<and> sublist (lc (keyword1 keywords)) (searchText lc post) \<and>
      (keywords_count keywords = 1 \<or>
       keywords_count keywords = 2 \<and> truthy (map_option lc (keyword2 keywords)) \<and>
         sublist (the (map_option lc (keyword2 keywords))) (searchText lc post) \<or>
       keywords_count keywords = 3 \<and> truthy (map_option lc (keyword2 keywords)) \<and>
         truthy (map_option lc (keyword3 keywords)) \<and>
         sublist (the (map_option lc (keyword2 keywords))) (searchText lc post) \<and>
         sublist (the (map_option lc (keyword3 keywords))) (searchText lc post)))"
  unfolding matchKeywords_def Let_def js_includes_sublist by auto

text \<open>
  Claim C3. Let \<open>lc\<close> be the lower-casing of the runtime; it maps the empty string, and no
  other, to the empty string. The matcher searches one text, the lower-casing of title, body,
  category and author joined by single spaces. It returns true exactly when the first keyword is
  not empty and its lower-casing occurs in that text, and the count is 1, or the count is 2 and
  the second keyword is present, not empty and occurs (lower-cased), or the count is 3 and the
  second and third keywords are both present, not empty and occur. Any other count and any
  required keyword that is missing or empty give false. The matcher is insensitive to case:
  a post and a filter whose joined text and whose keywords have the same lower-casing as those
  of another post and filter, with the same count, get the same answer.
\<close>

theorem matchKeywords_spec:
  assumes "\<forall>s. (lc s = []) = (s = [])"
  shows "(matchKeywords lc post keywords \<longleftrightarrow>
     keyword1 keywords \<noteq> [] \<and>
     sublist (lc (keyword1 keywords))
       (lc (title post @ '' '' @ content post @ '' '' @ category post @ '' '' @ creator post)) \<and>
     (keywords_count keywords = 1 \<or>
      keywords_count keywords = 2 \<and>
        (\<exists>k2. keyword2 keywords = Some k2 \<and> k2 \<noteq> [] \<and>
           sublist (lc k2)
             (lc (title post @ '' '' @ content post @ '' '' @ category post @ '' '' @ creator post))) \<or>
      keywords_count keywords = 3 \<and>
        (\<exists>k2 k3. keyword2 keywords = Some k2 \<and> k2 \<noteq> [] \<and> keyword3 keywords = Some k3 \<and> k3 \<noteq> [] \<and>
           sublist (lc k2)
             (lc (title post @ '' '' @ content post @ '' '' @ category post @ '' '' @ creator post)) \<and>
           sublist (lc k3)
             (lc (title post @ '' '' @ content post @ '' '' @ category post @ '' '' @ creator post)))))
   \<and> (lc (title post' @ '' '' @ content post' @ '' '' @ category post' @ '' '' @ creator post')
        = lc (title post @ '' '' @ content post @ '' '' @ category post @ '' '' @ creator post) \<and>
      lc (keyword1 keywords') = lc (keyword1 keywords) \<and>
      map_option lc (keyword2 keywords') = map_option lc (keyword2 keywords) \<and>
      map_option lc (keyword3 keywords') = map_option lc (keyword3 keywords) \<and>
      keywords_count keywords' = keywords_count keywords
      \<longrightarrow> matchKeywords lc post' keywords' = matchKeywords lc post keywords)"
proof -
  have e: "(lc s = []) = (s = [])" for s using assms by simp
  have iff: "matchKeywords lc post keywords \<longleftrightarrow>
     keyword1 keywords \<noteq> [] \<and>
     sublist (lc (keyword1 keywords))
       (lc (title post @ '' '' @ content post @ '' '' @ category post @ '' '' @ creator post)) \<and>
     (keywords_count keywords = 1 \<or>
      keywords_count keywords = 2 \<and>
        (\<exists>k2. keyword2 keywords = Some k2 \<and> k2 \<noteq> [] \<and>
           sublist (lc k2)
             (lc (title post @ '' '' @ content post @ '' '' @ category post @ '' '' @ creator post))) \<or>
      keywords_count keywords = 3 \<and>
        (\<exists>k2 k3. keyword2 keywords = Some k2 \<and> k2 \<noteq> [] \<and> keyword3 keywords = Some k3 \<and> k3 \<noteq> [] \<and>
           sublist (lc k2)
             (lc (title post @ '' '' @ content post @ '' '' @ category post @ '' '' @ creator post)) \<and>
           sublist (lc k3)
             (lc (title post @ '' '' @ content post @ '' '' @ category post @ '' '' @ creator post))))"
    unfolding matchKeywords_def Let_def truthy_def searchText_def js_includes_sublist
    by (cases "keyword2 keywords"; cases "keyword3 keywords") (auto simp: e)
  have inv: "matchKeywords lc post' keywords' = matchKeywords lc post keywords"
    if "lc (title post' @ '' '' @ content post' @ '' '' @ category post' @ '' '' @ creator post')
        = lc (title post @ '' '' @ content post @ '' '' @ category post @ '' '' @ creator post)"
      "lc (keyword1 keywords') = lc (keyword1 keywords)"
      "map_option lc (keyword2 keywords') = map_option lc (keyword2 keywords)"
      "map_option lc (keyword3 keywords') = map_option lc (keyword3 keywords)"
      "keywords_count keywords' = keywords_count keywords"
  proof -
    from that(1) have "searchText lc post' = searchText lc post" by (simp add: searchText_eq)
    with that(2-5) show ?thesis by (simp only: matchKeywords_lowered)
  qed
  from iff inv show ?thesis by blast
qed

text \<open>
  With the folding of the ASCII letters: the title "Hello World" by author "bob" matches the
  filter with the two keywords "HELLO" and "Bob", as it matches the filter "hello", "bob".
\<close>

theorem matchKeywords_spec_witness:
  "(\<forall>s. (ascii_toLowerCase s = []) = (s = []))
   \<and> matchKeywords ascii_toLowerCase (ex_post 1 42 ''Hello World'' 0)
        \<lparr>ks_id = 1, ks_user_id = 1, keywords_count = 2, keyword1 = ''HELLO'',
         keyword2 = Some ''Bob'', keyword3 = None, ks_is_active = 1\<rparr>
   \<and> matchKeywords ascii_toLowerCase (ex_post 1 42 ''Hello World'' 0)
        \<lparr>ks_id = 1, ks_user_id = 1, keywords_count = 2, keyword1 = ''HELLO'',
         keyword2 = Some ''Bob'', keyword3 = None, ks_is_active = 1\<rparr>
      = matchKeywords ascii_toLowerCase (ex_post 1 42 ''hello world'' 0)
        \<lparr>ks_id = 1, ks_user_id = 1, keywords_count = 2, keyword1 = ''hello'',
         keyword2 = Some ''bob'', keyword3 = None, ks_is_active = 1\<rparr>
   \<and> sublist (ascii_toLowerCase ''HELLO'')
        (ascii_toLowerCase (''Hello World'' @ '' '' @ [] @ '' '' @ ''c'' @ '' '' @ ''bob''))"
proof -
  let ?P = "ex_post 1 42 ''Hello World'' 0"
  let ?P' = "ex_post 1 42 ''hello world'' 0"
  let ?K = "\<lparr>ks_id = 1, ks_user_id = 1, keywords_count = 2, keyword1 = ''HELLO'',
         keyword2 = Some ''Bob'', keyword3 = None, ks_is_active = 1\<rparr>"
  let ?K' = "\<lparr>ks_id = 1, ks_user_id = 1, keywords_count = 2, keyword1 = ''hello'',
         keyword2 = Some ''bob'', keyword3 = None, ks_is_active = 1\<rparr>"
  have h: "\<forall>s. (ascii_toLowerCase s = []) = (s = [])" by (simp add: ascii_toLowerCase_def)
  note inst = matchKeywords_spec[OF h, of ?P ?K ?P' ?K']
  have m: "matchKeywords ascii_toLowerCase ?P ?K" by code_simp
  have t: "ascii_toLowerCase (title ?P' @ '' '' @ content ?P' @ '' '' @ category ?P' @ '' '' @ creator ?P')
           = ascii_toLowerCase (title ?P @ '' '' @ content ?P @ '' '' @ category ?P @ '' '' @ creator ?P)"
    by code_simp
  have k1: "ascii_toLowerCase (keyword1 ?K') = ascii_toLowerCase (keyword1 ?K)" by code_simp
  have k2: "map_option ascii_toLowerCase (keyword2 ?K') = map_option ascii_toLowerCase (keyword2 ?K)"
    by code_simp
  have k3: "map_option ascii_toLowerCase (keyword3 ?K') = map_option ascii_toLowerCase (keyword3 ?K)"
    by simp
  have c: "keywords_count ?K' = keywords_count ?K" by simp
  have same: "matchKeywords ascii_toLowerCase ?P' ?K' = matchKeywords ascii_toLowerCase ?P ?K"
    by (rule inst[THEN conjunct2, THEN mp]) (intro conjI t k1 k2 k3 c)
  note fwd = inst[THEN conjunct1, THEN iffD1, OF m]
  from fwd[THEN conjunct2, THEN conjunct1]
  have sub: "sublist (ascii_toLowerCase ''HELLO'')
        (ascii_toLowerCase (''Hello World'' @ '' '' @ [] @ '' '' @ ''c'' @ '' '' @ ''bob''))"
    by simp
  show ?thesis
    by (intro conjI h m same[symmetric] sub)
qed

section \<open>Properties of the post store and of the fan-out\<close>


lemma select_post_None:
  "select_post db k = None \<longleftrightarrow> (k = None \<or> k \<notin> post_id ` set (posts db))"
  by (auto simp: select_post_def find_None_iff sql_eq_def)







lemma for_users_append:
  "for_users lc f post (xs @ ys) st =
     (case for_users lc f post xs st of
        (None, st') \<Rightarrow> for_users lc f post ys st'
      | (Some e, st') \<Rightarrow> (Some e, st'))"
  by (induction xs arbitrary: st) (auto split: prod.splits option.splits)








section \<open>Properties of the dispatch\<close>

lemma set_status_simps:
  "pl_id (set_status i err l) = pl_id l"
  "pl_id l = i \<Longrightarrow> push_status (set_status i err l) = 1"
  "push_status l = 1 \<Longrightarrow> push_status (set_status i err l) = 1"
  by (simp_all add: set_status_def)

lemma set_status_written: "set_status i err l = l \<or> push_status (set_status i err l) = 1"
  by (simp add: set_status_def)

lemma update_log_simps:
  "users (update_log db i err) = users db"
  "posts (update_log db i err) = posts db"
  "keywords_sub (update_log db i err) = keywords_sub db"
  "push_logs (update_log db i err) = map (set_status i err) (push_logs db)"
  by (simp_all add: update_log_def)

lemma deactivateUser_simps:
  "push_logs (deactivateUser f db c) = push_logs db"
  "posts (deactivateUser f db c) = posts db"
  "keywords_sub (deactivateUser f db c) = keywords_sub db"
  by (simp_all add: deactivateUser_def split: option.splits)

lemma marked_update_same: "marked (update_log db i err) i"
  by (auto simp: marked_def update_log_simps set_status_simps)

lemma marked_update_other: "marked db i \<Longrightarrow> marked (update_log db j err) i"
  by (auto simp: marked_def update_log_simps set_status_simps)

lemma marked_deactivateUser: "marked (deactivateUser f db c) i = marked db i"
  by (simp add: marked_def deactivateUser_simps)

lemma ids_update_log: "map pl_id (push_logs (update_log db j err)) = map pl_id (push_logs db)"
  by (simp add: update_log_simps set_status_simps)

lemma written_update_log:
  "l \<in> set (push_logs (update_log db j err)) \<Longrightarrow> l \<in> set (push_logs db) \<or> push_status l = 1"
  by (auto simp: update_log_simps) (metis set_status_written)


lemma try_send_cases:
  assumes "try_send lc f ch log (s, fl, db) = (e, s', fl', db')"
  shows "(e \<noteq> None \<and> s' = s \<and> fl' = fl \<and> db' = db) \<or>
         (e = None \<and> s' + fl' = Suc (s + fl) \<and>
          (\<exists>err. db' = update_log db (log_id log) err \<or>
                 db' = deactivateUser f (update_log db (log_id log) err) (log_chat_id log)))"
proof (cases "send_success (sendTelegramMessage lc ch (log_chat_id log) (post_of log) (matchedKeywords_of log))")
  case True
  show ?thesis
  proof (cases "f (UpdateLogSent (log_id log))")
    case None
    with True assms have "e = None \<and> s' = Suc s \<and> fl' = fl \<and> db' = update_log db (log_id log) None"
      by (simp add: try_send_def Let_def)
    then show ?thesis by auto
  next
    case (Some x)
    with True assms have "e = Some x \<and> s' = s \<and> fl' = fl \<and> db' = db"
      by (simp add: try_send_def Let_def)
    then show ?thesis by simp
  qed
next
  case False
  show ?thesis
  proof (cases "f (UpdateLogFailed (log_id log))")
    case None
    with False assms have c: "e = None \<and> s' = s \<and> fl' = Suc fl" by (simp add: try_send_def Let_def)
    from None False assms
    have "db' = update_log db (log_id log)
                  (send_error (sendTelegramMessage lc ch (log_chat_id log) (post_of log) (matchedKeywords_of log)))
          \<or> db' = deactivateUser f (update_log db (log_id log)
                  (send_error (sendTelegramMessage lc ch (log_chat_id log) (post_of log) (matchedKeywords_of log))))
                  (log_chat_id log)"
      by (simp add: try_send_def Let_def split: if_splits)
    then have "\<exists>err. db' = update_log db (log_id log) err \<or>
                 db' = deactivateUser f (update_log db (log_id log) err) (log_chat_id log)"
      by (rule exI)
    with c show ?thesis by simp
  next
    case (Some x)
    with False assms have "e = Some x \<and> s' = s \<and> fl' = fl \<and> db' = db"
      by (simp add: try_send_def Let_def)
    then show ?thesis by simp
  qed
qed

lemma process_log_cases:
  assumes "process_log lc f ch log (s, fl, db) = (e, s', fl', db')"
  shows "(e \<noteq> None \<and> e = f (UpdateLogCaught (log_id log)) \<and> s' = s \<and> fl' = fl \<and> db' = db) \<or>
         (e = None \<and> s' + fl' = Suc (s + fl) \<and>
          (\<exists>err. db' = update_log db (log_id log) err \<or>
                 db' = deactivateUser f (update_log db (log_id log) err) (log_chat_id log)))"
proof -
  obtain e1 s1 fl1 db1 where t: "try_send lc f ch log (s, fl, db) = (e1, s1, fl1, db1)"
    by (metis prod.collapse)
  from try_send_cases[OF t] show ?thesis
  proof
    assume a: "e1 \<noteq> None \<and> s1 = s \<and> fl1 = fl \<and> db1 = db"
    then obtain x where x: "e1 = Some x" by auto
    show ?thesis
    proof (cases "f (UpdateLogCaught (log_id log))")
      case None
      with assms t a x have "e = None \<and> s' = s \<and> fl' = Suc fl \<and>
          db' = update_log db (log_id log) (Some x)"
        by (simp add: process_log_def)
      then show ?thesis by auto
    next
      case (Some y)
      with assms t a x have "e = Some y \<and> s' = s \<and> fl' = fl \<and> db' = db"
        by (simp add: process_log_def)
      with Some show ?thesis by simp
    qed
  next
    assume a: "e1 = None \<and> s1 + fl1 = Suc (s + fl) \<and>
          (\<exists>err. db1 = update_log db (log_id log) err \<or>
                 db1 = deactivateUser f (update_log db (log_id log) err) (log_chat_id log))"
    with assms t have "e = None \<and> s' = s1 \<and> fl' = fl1 \<and> db' = db1"
      by (simp add: process_log_def)
    with a show ?thesis by simp
  qed
qed

lemma process_log_total:
  assumes "f (UpdateLogCaught (log_id log)) = None"
  shows "\<exists>s' fl' db'. process_log lc f ch log (s, fl, db) = (None, s', fl', db')"
proof -
  obtain e s' fl' db' where r: "process_log lc f ch log (s, fl, db) = (e, s', fl', db')"
    by (metis prod.collapse)
  from process_log_cases[OF r] assms have "e = None" by auto
  with r show ?thesis by simp
qed

lemma process_log_marks:
  assumes "process_log lc f ch log (s, fl, db) = (None, s', fl', db')"
  shows "marked db' (log_id log)"
proof -
  from process_log_cases[OF assms] obtain err where
    "db' = update_log db (log_id log) err \<or>
     db' = deactivateUser f (update_log db (log_id log) err) (log_chat_id log)" by auto
  then show ?thesis
  proof
    assume "db' = update_log db (log_id log) err"
    then show ?thesis by (simp add: marked_update_same)
  next
    assume "db' = deactivateUser f (update_log db (log_id log) err) (log_chat_id log)"
    then show ?thesis by (simp add: marked_deactivateUser marked_update_same)
  qed
qed

lemma process_log_keeps:
  assumes "process_log lc f ch log (s, fl, db) = (e, s', fl', db')"
  shows "marked db i \<Longrightarrow> marked db' i"
    and "map pl_id (push_logs db') = map pl_id (push_logs db)"
    and "l \<in> set (push_logs db') \<Longrightarrow> l \<in> set (push_logs db) \<or> push_status l = 1"
proof -
  from process_log_cases[OF assms] consider
    (same) "db' = db"
    | (upd) err where "db' = update_log db (log_id log) err"
    | (deact) err where "db' = deactivateUser f (update_log db (log_id log) err) (log_chat_id log)"
    by blast
  note cs = this
  show "marked db i \<Longrightarrow> marked db' i"
  proof -
    assume m: "marked db i"
    from cs show ?thesis
    proof cases
      case same
      with m show ?thesis by simp
    next
      case upd
      with m show ?thesis by (simp add: marked_update_other)
    next
      case deact
      with m show ?thesis by (simp add: marked_deactivateUser marked_update_other)
    qed
  qed
  show "map pl_id (push_logs db') = map pl_id (push_logs db)"
    using cs
  proof cases
    case same
    then show ?thesis by simp
  next
    case upd
    then show ?thesis by (simp add: ids_update_log)
  next
    case deact
    then show ?thesis by (simp add: deactivateUser_simps ids_update_log)
  qed
  show "l \<in> set (push_logs db') \<Longrightarrow> l \<in> set (push_logs db) \<or> push_status l = 1"
  proof -
    assume l: "l \<in> set (push_logs db')"
    from cs show ?thesis
    proof cases
      case same
      with l show ?thesis by simp
    next
      case upd
      with l written_update_log show ?thesis by blast
    next
      case deact
      with l have "l \<in> set (push_logs (update_log db (log_id log) err))"
        by (simp add: deactivateUser_simps)
      with written_update_log show ?thesis by blast
    qed
  qed
qed

lemma for_logs_terminal:
  assumes "\<forall>log \<in> set logs. f (UpdateLogCaught (log_id log)) = None"
  shows "\<exists>s' fl' db'. for_logs lc f ch logs (s, fl, db) = (None, s', fl', db') \<and>
          s' + fl' = s + fl + length logs \<and>
          (\<forall>log \<in> set logs. marked db' (log_id log)) \<and>
          (\<forall>i. marked db i \<longrightarrow> marked db' i) \<and>
          map pl_id (push_logs db') = map pl_id (push_logs db)"
  using assms
proof (induction logs arbitrary: s fl db)
  case Nil
  then show ?case by simp
next
  case (Cons log logs)
  from Cons.prems have ok: "f (UpdateLogCaught (log_id log)) = None" by simp
  from process_log_total[where f = f and log = log, OF ok] obtain s1 fl1 db1 where
    p: "process_log lc f ch log (s, fl, db) = (None, s1, fl1, db1)" by blast
  from process_log_cases[OF p] have cnt: "s1 + fl1 = Suc (s + fl)" by auto
  have m1: "marked db1 (log_id log)" by (rule process_log_marks[OF p])
  have k1: "\<And>i. marked db i \<Longrightarrow> marked db1 i" by (rule process_log_keeps(1)[OF p])
  have i1: "map pl_id (push_logs db1) = map pl_id (push_logs db)"
    by (rule process_log_keeps(2)[OF p])
  from Cons.prems have "\<forall>log \<in> set logs. f (UpdateLogCaught (log_id log)) = None" by simp
  from Cons.IH[OF this, of s1 fl1 db1] obtain s' fl' db' where r:
    "for_logs lc f ch logs (s1, fl1, db1) = (None, s', fl', db')"
    "s' + fl' = s1 + fl1 + length logs"
    "\<forall>log \<in> set logs. marked db' (log_id log)"
    "\<forall>i. marked db1 i \<longrightarrow> marked db' i"
    "map pl_id (push_logs db') = map pl_id (push_logs db1)" by blast
  have a: "for_logs lc f ch (log # logs) (s, fl, db) = (None, s', fl', db')" using p r(1) by simp
  have b: "s' + fl' = s + fl + length (log # logs)" using r(2) cnt by simp
  have c: "\<forall>x \<in> set (log # logs). marked db' (log_id x)" using m1 r(3) r(4) by simp
  have d: "\<forall>i. marked db i \<longrightarrow> marked db' i" using k1 r(4) by blast
  have e: "map pl_id (push_logs db') = map pl_id (push_logs db)" using i1 r(5) by simp
  from a b c d e show ?case by blast
qed

lemma for_logs_written:
  "for_logs lc f ch logs (s, fl, db) = (e, s', fl', db') \<Longrightarrow> l \<in> set (push_logs db') \<Longrightarrow>
     l \<in> set (push_logs db) \<or> push_status l = 1"
proof (induction logs arbitrary: s fl db)
  case Nil
  then show ?case by simp
next
  case (Cons log logs)
  obtain e1 s1 fl1 db1 where p: "process_log lc f ch log (s, fl, db) = (e1, s1, fl1, db1)"
    by (metis prod.collapse)
  note w = process_log_keeps(3)[OF p]
  show ?case
  proof (cases e1)
    case None
    with Cons.prems(1) p have "for_logs lc f ch logs (s1, fl1, db1) = (e, s', fl', db')" by simp
    from Cons.IH[OF this Cons.prems(2)] w show ?thesis by blast
  next
    case (Some x)
    with Cons.prems(1) p have "db' = db1" by simp
    with w Cons.prems(2) show ?thesis by simp
  qed
qed



lemma is_blocked_iff:
  "is_blocked lc msg \<longleftrightarrow> (\<exists>b \<in> set blockedErrors. sublist (lc b) (lc msg))"
  by (simp add: is_blocked_def list_ex_iff js_includes_sublist)

lemma sendTelegramMessage_failed:
  assumes "ch chatId post kws = Some error"
  shows "send_success (sendTelegramMessage lc ch chatId post kws) = False"
    and "send_error (sendTelegramMessage lc ch chatId post kws) = Some (errorMessage error)"
    and "userBlocked (sendTelegramMessage lc ch chatId post kws) = Some (is_blocked lc (errorMessage error))"
  using assms by (simp_all add: sendTelegramMessage_def)

lemma sendTelegramMessage_sent:
  assumes "ch chatId post kws = None"
  shows "send_success (sendTelegramMessage lc ch chatId post kws) = True"
  using assms by (simp add: sendTelegramMessage_def)

lemma try_send_failed:
  assumes "ch (log_chat_id log) (post_of log) (matchedKeywords_of log) = Some error"
  shows "try_send lc f ch log (s, fl, db) =
     (case f (UpdateLogFailed (log_id log)) of
        Some e \<Rightarrow> (Some e, s, fl, db)
      | None \<Rightarrow>
          (None, s, Suc fl,
           if is_blocked lc (errorMessage error)
           then deactivateUser f (update_log db (log_id log) (Some (errorMessage error)))
                  (log_chat_id log)
           else update_log db (log_id log) (Some (errorMessage error))))"
  by (simp add: try_send_def Let_def sendTelegramMessage_failed[where ch = ch, OF assms] split: option.splits)

lemma try_send_sent:
  assumes "ch (log_chat_id log) (post_of log) (matchedKeywords_of log) = None"
  shows "try_send lc f ch log (s, fl, db) =
     (case f (UpdateLogSent (log_id log)) of
        Some e \<Rightarrow> (Some e, s, fl, db)
      | None \<Rightarrow> (None, Suc s, fl, update_log db (log_id log) None))"
  by (simp add: try_send_def Let_def sendTelegramMessage_sent[where ch = ch, OF assms] split: option.splits)

lemma process_log_caught:
  assumes "try_send lc f ch log (s, fl, db) = (Some e, st)"
    and "f (UpdateLogCaught (log_id log)) = None"
  shows "process_log lc f ch log (s, fl, db) = (None, s, Suc fl, update_log db (log_id log) (Some e))"
proof -
  obtain s1 fl1 db1 where st: "st = (s1, fl1, db1)" by (metis prod.collapse)
  from try_send_cases[OF assms(1)[unfolded st]] have "s1 = s \<and> fl1 = fl \<and> db1 = db" by simp
  with assms st show ?thesis by (simp add: process_log_def)
qed

lemma users_deactivateUser:
  "users (deactivateUser f db c) =
     (case f (DeactivateUser c) of None \<Rightarrow> map (deactivate_row c) (users db) | Some e \<Rightarrow> users db)"
  by (simp add: deactivateUser_def split: option.splits)

lemma users_process_log_failed:
  assumes "ch (log_chat_id log) (post_of log) (matchedKeywords_of log) = Some error"
  shows "users (snd (snd (snd (process_log lc f ch log (s, fl, db))))) =
     (if is_blocked lc (errorMessage error) \<and> f (UpdateLogFailed (log_id log)) = None \<and>
         f (DeactivateUser (log_chat_id log)) = None
      then map (deactivate_row (log_chat_id log)) (users db) else users db)"
proof (cases "f (UpdateLogFailed (log_id log))")
  case None
  then have t: "try_send lc f ch log (s, fl, db) =
          (None, s, Suc fl,
           if is_blocked lc (errorMessage error)
           then deactivateUser f (update_log db (log_id log) (Some (errorMessage error)))
                  (log_chat_id log)
           else update_log db (log_id log) (Some (errorMessage error)))"
    by (simp add: try_send_failed[where ch = ch and log = log, OF assms])
  show ?thesis
    unfolding process_log_def t using None
    by (simp add: users_deactivateUser update_log_simps split: option.splits)
next
  case (Some x)
  then have t: "try_send lc f ch log (s, fl, db) = (Some x, s, fl, db)"
    by (simp add: try_send_failed[where ch = ch and log = log, OF assms])
  show ?thesis
    unfolding process_log_def t using Some
    by (simp add: update_log_simps split: option.splits)
qed

lemma join_log_user:
  "r \<in> set (join_log db pl) \<Longrightarrow>
     log_id r = pl_id pl \<and> log_user_id r = pl_user_id pl \<and>
     (\<exists>u \<in> set (users db). u_id u = log_user_id r \<and> u_chat_id u = log_chat_id r)"
  by (auto simp: join_log_def joined_def)

lemma pendingLogs_pending:
  assumes "r \<in> set (pendingLogs db)"
  shows "\<exists>l \<in> set (push_logs db). push_status l = 0 \<and> pl_id l = log_id r \<and>
           (\<exists>u \<in> set (users db). u_id u = pl_user_id l \<and> u_chat_id u = log_chat_id r)"
proof -
  from assms have "r \<in> set (concat (map (join_log db) (filter (\<lambda>pl. push_status pl = 0) (push_logs db))))"
    unfolding pendingLogs_def by (rule in_set_takeD)
  then obtain pl where pl: "pl \<in> set (push_logs db)" "push_status pl = 0" "r \<in> set (join_log db pl)"
    by auto
  from join_log_user[OF pl(3)] obtain u where u: "log_id r = pl_id pl" "u \<in> set (users db)"
    "u_id u = pl_user_id pl" "u_chat_id u = log_chat_id r" by auto
  have "push_status pl = 0 \<and> pl_id pl = log_id r \<and>
           (\<exists>u \<in> set (users db). u_id u = pl_user_id pl \<and> u_chat_id u = log_chat_id r)"
    using pl(2) u by auto
  with pl(1) show ?thesis by (rule bexI[rotated])
qed


lemma users_process_log_sent:
  assumes "ch (log_chat_id log) (post_of log) (matchedKeywords_of log) = None"
  shows "users (snd (snd (snd (process_log lc f ch log (s, fl, db))))) = users db"
  unfolding process_log_def try_send_sent[where ch = ch and log = log, OF assms]
  by (simp add: update_log_simps split: option.splits)

lemma pendingLogs_subscriber:
  assumes "r \<in> set (pendingLogs db)"
  shows "\<exists>u \<in> set (users db). u_id u = log_user_id r \<and> u_chat_id u = log_chat_id r"
proof -
  from assms have "r \<in> set (concat (map (join_log db) (filter (\<lambda>pl. push_status pl = 0) (push_logs db))))"
    unfolding pendingLogs_def by (rule in_set_takeD)
  then obtain pl where "r \<in> set (join_log db pl)" by auto
  from join_log_user[OF this] show ?thesis by blast
qed

text \<open>
  Claim C7, as stated, fails: a recognised phrase does not always deactivate the subscriber.
  The send is rejected with "Forbidden: bot was blocked by the user", one of the five phrases.
  When the statement that sets the user inactive throws, the handler of the deactivation
  swallows the error; when the status update of the row, which comes first, throws, the
  deactivation is never reached. In both runs the subscriber is still active.
\<close>

theorem deactivation_write_failure_counterexample:
  "ex_rejects ''Forbidden: bot was blocked by the user'' (log_chat_id (ex_pending 1 1))
      (post_of (ex_pending 1 1)) (matchedKeywords_of (ex_pending 1 1))
     = Some \<lparr>err_message = Some ''Forbidden: bot was blocked by the user'',
             err_description = None, err_string = ''Forbidden: bot was blocked by the user''\<rparr>
   \<and> is_blocked ascii_toLowerCase ''Forbidden: bot was blocked by the user''
   \<and> users (snd (snd (snd (process_log ascii_toLowerCase (ex_faults [DeactivateUser 100])
        (ex_rejects ''Forbidden: bot was blocked by the user'') (ex_pending 1 1)
        (0, 0, ex_db 1 [ex_post 1 42 ''Hello'' 1] [ex_log 1 42 1 0 None])))))
     = [ex_user 1]
   \<and> users (snd (snd (snd (process_log ascii_toLowerCase (ex_faults [UpdateLogFailed 1])
        (ex_rejects ''Forbidden: bot was blocked by the user'') (ex_pending 1 1)
        (0, 0, ex_db 1 [ex_post 1 42 ''Hello'' 1] [ex_log 1 42 1 0 None])))))
     = [ex_user 1]"
proof -
  have a: "is_blocked ascii_toLowerCase ''Forbidden: bot was blocked by the user''"
    by code_simp
  have b: "users (snd (snd (snd (process_log ascii_toLowerCase (ex_faults [DeactivateUser 100])
        (ex_rejects ''Forbidden: bot was blocked by the user'') (ex_pending 1 1)
        (0, 0, ex_db 1 [ex_post 1 42 ''Hello'' 1] [ex_log 1 42 1 0 None])))))
     = [ex_user 1]"
    by (simp add: users_process_log_failed[where ch = "ex_rejects ''Forbidden: bot was blocked by the user''"])
  have c: "users (snd (snd (snd (process_log ascii_toLowerCase (ex_faults [UpdateLogFailed 1])
        (ex_rejects ''Forbidden: bot was blocked by the user'') (ex_pending 1 1)
        (0, 0, ex_db 1 [ex_post 1 42 ''Hello'' 1] [ex_log 1 42 1 0 None])))))
     = [ex_user 1]"
    by (simp add: users_process_log_failed[where ch = "ex_rejects ''Forbidden: bot was blocked by the user''"])
  from a b c show ?thesis by simp
qed

text \<open>
  Claim C7, amended. Let \<open>lc\<close> be the lower-casing of the runtime. Take one step of the
  dispatch loop on a pending row. When the send is rejected with error \<open>error\<close>, the users after
  the step are the users before it with every user of the row's chat set inactive, exactly when
  the lower-cased error message contains the lower-casing of one of the five fixed phrases and
  neither the status update of the row nor the update of the user throws; in every other case,
  and when the send succeeds, the users are unchanged. Setting inactive changes the users of
  the row's chat and no others, and the chat of a pending row is the chat of its subscriber.
\<close>

theorem deactivation_trigger:
  "(\<forall>error. ch (log_chat_id log) (post_of log) (matchedKeywords_of log) = Some error \<longrightarrow>
      users (snd (snd (snd (process_log lc f ch log (s, fl, db))))) =
        (if (\<exists>b \<in> set blockedErrors. sublist (lc b) (lc (errorMessage error))) \<and>
            f (UpdateLogFailed (log_id log)) = None \<and>
            f (DeactivateUser (log_chat_id log)) = None
         then map (deactivate_row (log_chat_id log)) (users db)
         else users db))
   \<and> (ch (log_chat_id log) (post_of log) (matchedKeywords_of log) = None \<longrightarrow>
      users (snd (snd (snd (process_log lc f ch log (s, fl, db))))) = users db)
   \<and> (\<forall>u. u_chat_id u = log_chat_id log \<longrightarrow> u_is_active (deactivate_row (log_chat_id log) u) = 0)
   \<and> (\<forall>u. u_chat_id u \<noteq> log_chat_id log \<longrightarrow> deactivate_row (log_chat_id log) u = u)
   \<and> (log \<in> set (pendingLogs db) \<longrightarrow>
        (\<exists>u \<in> set (users db). u_id u = log_user_id log \<and> u_chat_id u = log_chat_id log))
   \<and> blockedErrors = [''Forbidden: bot was blocked by the user'',
        ''Forbidden: user is deactivated'', ''Forbidden: bot was kicked from the group chat'',
        ''Forbidden: bot was kicked from the supergroup chat'', ''Bad Request: chat not found'']"
proof -
  have a: "users (snd (snd (snd (process_log lc f ch log (s, fl, db))))) =
        (if (\<exists>b \<in> set blockedErrors. sublist (lc b) (lc (errorMessage error))) \<and>
            f (UpdateLogFailed (log_id log)) = None \<and>
            f (DeactivateUser (log_chat_id log)) = None
         then map (deactivate_row (log_chat_id log)) (users db)
         else users db)"
    if "ch (log_chat_id log) (post_of log) (matchedKeywords_of log) = Some error" for error
    unfolding users_process_log_failed[where ch = ch and log = log, OF that] is_blocked_iff
    by simp
  have b: "users (snd (snd (snd (process_log lc f ch log (s, fl, db))))) = users db"
    if "ch (log_chat_id log) (post_of log) (matchedKeywords_of log) = None"
    using that by (rule users_process_log_sent[where ch = ch and log = log])
  have c: "u_is_active (deactivate_row (log_chat_id log) u) = 0"
    if "u_chat_id u = log_chat_id log" for u
    using that by (simp add: deactivate_row_def)
  have d: "deactivate_row (log_chat_id log) u = u" if "u_chat_id u \<noteq> log_chat_id log" for u
    using that by (simp add: deactivate_row_def)
  have e: "\<exists>u \<in> set (users db). u_id u = log_user_id log \<and> u_chat_id u = log_chat_id log"
    if "log \<in> set (pendingLogs db)"
    using that by (rule pendingLogs_subscriber)
  have g: "blockedErrors = [''Forbidden: bot was blocked by the user'',
        ''Forbidden: user is deactivated'', ''Forbidden: bot was kicked from the group chat'',
        ''Forbidden: bot was kicked from the supergroup chat'', ''Bad Request: chat not found'']"
    by (simp add: blockedErrors_def)
  show ?thesis
    apply (intro conjI allI impI)
         apply (erule a)
        apply (erule b)
       apply (erule c)
      apply (erule d)
     apply (erule e)
    apply (rule g)
    done
qed

lemma pushTask_result:
  assumes "f SelectPending = None"
  shows "pendingLogs db = [] \<Longrightarrow>
           pushTask lc f ch db =
             (\<lparr>success = True,
               stats = [(''pushAttempts'', 0), (''successfulPushes'', 0), (''failedPushes'', 0)]\<rparr>, db)"
    and "pendingLogs db \<noteq> [] \<Longrightarrow> for_logs lc f ch (pendingLogs db) (0, 0, db) = (None, a, b, db') \<Longrightarrow>
           pushTask lc f ch db =
             (\<lparr>success = True,
               stats = [(''pushAttempts'', length (pendingLogs db)), (''successfulPushes'', a),
                        (''failedPushes'', b)]\<rparr>, db')"
    and "pendingLogs db \<noteq> [] \<Longrightarrow> for_logs lc f ch (pendingLogs db) (0, 0, db) = (Some e, a, b, db') \<Longrightarrow>
           pushTask lc f ch db = (\<lparr>success = False, stats = []\<rparr>, db')"
  using assms by (simp_all add: pushTask_def Let_def)

text \<open>
  Claim C1, amended. In a dispatch run whose pending query succeeds and in which the update
  made by the \<open>catch\<close> of the loop body does not throw for any row of the batch, the task
  reports success, the numbers of sent and failed rows add up to the size of the batch, and
  afterwards every ledger row that has the id of a row of the batch has status 1 (sent when its
  error is \<open>NULL\<close>, failed when it holds a text), so none of them is pending; the ids of the
  ledger are unchanged. In particular, when the \<open>try\<close> block throws \<open>e\<close> for a row and the
  update in the \<open>catch\<close> succeeds, the row is marked with status 1 and error text \<open>e\<close>, one
  failure is counted, and the loop goes on.
\<close>

theorem pushTask_terminal:
  assumes "f SelectPending = None"
    and "\<forall>log \<in> set (pendingLogs db). f (UpdateLogCaught (log_id log)) = None"
  shows "success (fst (pushTask lc f ch db))
     \<and> (\<exists>a b. stats (fst (pushTask lc f ch db)) =
                 [(''pushAttempts'', length (pendingLogs db)), (''successfulPushes'', a),
                  (''failedPushes'', b)] \<and> a + b = length (pendingLogs db))
     \<and> (\<forall>log \<in> set (pendingLogs db). \<forall>l \<in> set (push_logs (snd (pushTask lc f ch db))).
            pl_id l = log_id log \<longrightarrow> push_status l = 1)
     \<and> map pl_id (push_logs (snd (pushTask lc f ch db))) = map pl_id (push_logs db)
     \<and> (\<forall>log s fl d e st.
            try_send lc f ch log (s, fl, d) = (Some e, st) \<and> f (UpdateLogCaught (log_id log)) = None
            \<longrightarrow> process_log lc f ch log (s, fl, d) =
                  (None, s, Suc fl, update_log d (log_id log) (Some e)))"
proof -
  have last: "\<forall>log s fl d e st.
            try_send lc f ch log (s, fl, d) = (Some e, st) \<and> f (UpdateLogCaught (log_id log)) = None
            \<longrightarrow> process_log lc f ch log (s, fl, d) =
                  (None, s, Suc fl, update_log d (log_id log) (Some e))"
    using process_log_caught by blast
  show ?thesis
  proof (cases "pendingLogs db = []")
    case True
    have "pushTask lc f ch db =
             (\<lparr>success = True,
               stats = [(''pushAttempts'', 0), (''successfulPushes'', 0), (''failedPushes'', 0)]\<rparr>, db)"
      by (rule pushTask_result(1)[where f = f, OF assms(1) True])
    with True last show ?thesis by simp
  next
    case False
    from for_logs_terminal[where f = f and logs = "pendingLogs db" and lc = lc and ch = ch
        and s = 0 and fl = 0 and db = db, OF assms(2)]
    obtain a b db' where r: "for_logs lc f ch (pendingLogs db) (0, 0, db) = (None, a, b, db')"
      "a + b = 0 + 0 + length (pendingLogs db)"
      "\<forall>log \<in> set (pendingLogs db). marked db' (log_id log)"
      "map pl_id (push_logs db') = map pl_id (push_logs db)" by blast
    have p: "pushTask lc f ch db =
             (\<lparr>success = True,
               stats = [(''pushAttempts'', length (pendingLogs db)), (''successfulPushes'', a),
                        (''failedPushes'', b)]\<rparr>, db')"
      by (rule pushTask_result(2)[where f = f, OF assms(1) False r(1)])
    have c1: "success (fst (pushTask lc f ch db))" by (simp add: p)
    have c2: "\<exists>a b. stats (fst (pushTask lc f ch db)) =
                 [(''pushAttempts'', length (pendingLogs db)), (''successfulPushes'', a),
                  (''failedPushes'', b)] \<and> a + b = length (pendingLogs db)"
      using r(2) by (simp add: p)
    have c3: "\<forall>log \<in> set (pendingLogs db). \<forall>l \<in> set (push_logs (snd (pushTask lc f ch db))).
            pl_id l = log_id log \<longrightarrow> push_status l = 1"
      using r(3) unfolding marked_def by (simp add: p)
    have c4: "map pl_id (push_logs (snd (pushTask lc f ch db))) = map pl_id (push_logs db)"
      using r(4) by (simp add: p)
    from c1 c2 c3 c4 last show ?thesis by blast
  qed
qed

lemma ex_pending_logs:
  "pendingLogs (ex_db 1 [ex_post 1 42 ''Hello'' 1] [ex_log 1 42 1 0 None, ex_log 2 42 2 0 None])
     = [ex_pending 1 1, ex_pending 2 2]"
  by code_simp

text \<open>
  Claim C1, as stated, fails. The \<open>catch\<close> of the loop body writes to the store itself. When
  the update after a delivered message throws and the update in the \<open>catch\<close> throws as well,
  the exception leaves the loop: the task reports failure, the processed row and the row behind
  it are still pending.
\<close>

theorem pushTask_handler_failure_counterexample:
  "pendingLogs (ex_db 1 [ex_post 1 42 ''Hello'' 1] [ex_log 1 42 1 0 None, ex_log 2 42 2 0 None])
     = [ex_pending 1 1, ex_pending 2 2]
   \<and> pushTask ascii_toLowerCase (ex_faults [UpdateLogSent 1, UpdateLogCaught 1]) ex_delivers
       (ex_db 1 [ex_post 1 42 ''Hello'' 1] [ex_log 1 42 1 0 None, ex_log 2 42 2 0 None])
     = (\<lparr>success = False, stats = []\<rparr>,
        ex_db 1 [ex_post 1 42 ''Hello'' 1] [ex_log 1 42 1 0 None, ex_log 2 42 2 0 None])"
  by code_simp

text \<open>
  A batch of two rows on a store whose update after the first delivery throws: the first row
  ends failed with the text of the exception, the second ends sent.
\<close>

theorem pushTask_terminal_witness:
  "ex_faults [UpdateLogSent 1] SelectPending = None
   \<and> map (\<lambda>log. ex_faults [UpdateLogSent 1] (UpdateLogCaught (log_id log)))
        (pendingLogs
          (ex_db 1 [ex_post 1 42 ''Hello'' 1] [ex_log 1 42 1 0 None, ex_log 2 42 2 0 None]))
      = [None, None]
   \<and> pushTask ascii_toLowerCase (ex_faults [UpdateLogSent 1]) ex_delivers
       (ex_db 1 [ex_post 1 42 ''Hello'' 1] [ex_log 1 42 1 0 None, ex_log 2 42 2 0 None])
     = (\<lparr>success = True,
         stats = [(''pushAttempts'', 2), (''successfulPushes'', 1), (''failedPushes'', 1)]\<rparr>,
        ex_db 1 [ex_post 1 42 ''Hello'' 1]
          [ex_log 1 42 1 1 (Some ''D1_ERROR''), ex_log 2 42 2 1 None])
   \<and> success (fst (pushTask ascii_toLowerCase (ex_faults [UpdateLogSent 1]) ex_delivers
       (ex_db 1 [ex_post 1 42 ''Hello'' 1] [ex_log 1 42 1 0 None, ex_log 2 42 2 0 None])))
   \<and> map pl_id (push_logs (snd (pushTask ascii_toLowerCase (ex_faults [UpdateLogSent 1]) ex_delivers
       (ex_db 1 [ex_post 1 42 ''Hello'' 1] [ex_log 1 42 1 0 None, ex_log 2 42 2 0 None]))))
      = [1, 2]"
proof -
  let ?f = "ex_faults [UpdateLogSent 1]"
  let ?db = "ex_db 1 [ex_post 1 42 ''Hello'' 1] [ex_log 1 42 1 0 None, ex_log 2 42 2 0 None]"
  have h1: "?f SelectPending = None" by simp
  have h2: "\<forall>log \<in> set (pendingLogs ?db). ?f (UpdateLogCaught (log_id log)) = None" by simp
  have h2': "map (\<lambda>log. ?f (UpdateLogCaught (log_id log))) (pendingLogs ?db) = [None, None]"
    unfolding ex_pending_logs by simp
  have r: "pushTask ascii_toLowerCase ?f ex_delivers ?db
     = (\<lparr>success = True,
         stats = [(''pushAttempts'', 2), (''successfulPushes'', 1), (''failedPushes'', 1)]\<rparr>,
        ex_db 1 [ex_post 1 42 ''Hello'' 1]
          [ex_log 1 42 1 1 (Some ''D1_ERROR''), ex_log 2 42 2 1 None])"
    by code_simp
  from pushTask_terminal[where f = ?f and db = ?db and ch = ex_delivers, OF h1 h2] have
    c: "success (fst (pushTask ascii_toLowerCase ?f ex_delivers ?db))"
    and d: "map pl_id (push_logs (snd (pushTask ascii_toLowerCase ?f ex_delivers ?db))) = map pl_id (push_logs ?db)"
    by blast+
  from d have d': "map pl_id (push_logs (snd (pushTask ascii_toLowerCase ?f ex_delivers ?db))) = [1, 2]" by simp
  from h1 h2' r c d' show ?thesis by blast
qed

text \<open>
  A channel that answers "FORBIDDEN: BOT WAS BLOCKED BY THE USER", in capitals, and a store
  that does not throw: the subscriber, whose chat is the chat of the row, becomes inactive.
\<close>

theorem deactivation_trigger_witness:
  "ex_rejects ''FORBIDDEN: BOT WAS BLOCKED BY THE USER'' (log_chat_id (ex_pending 1 1))
      (post_of (ex_pending 1 1)) (matchedKeywords_of (ex_pending 1 1))
     = Some \<lparr>err_message = Some ''FORBIDDEN: BOT WAS BLOCKED BY THE USER'',
             err_description = None, err_string = ''FORBIDDEN: BOT WAS BLOCKED BY THE USER''\<rparr>
   \<and> no_faults (UpdateLogFailed (log_id (ex_pending 1 1))) = None
   \<and> no_faults (DeactivateUser (log_chat_id (ex_pending 1 1))) = None
   \<and> ex_pending 1 1 \<in> set (pendingLogs (ex_db 1 [ex_post 1 42 ''Hello'' 1] [ex_log 1 42 1 0 None]))
   \<and> u_chat_id (ex_user 1) = log_chat_id (ex_pending 1 1)
   \<and> users (snd (snd (snd (process_log ascii_toLowerCase no_faults
        (ex_rejects ''FORBIDDEN: BOT WAS BLOCKED BY THE USER'') (ex_pending 1 1)
        (0, 0, ex_db 1 [ex_post 1 42 ''Hello'' 1] [ex_log 1 42 1 0 None])))))
     = [ex_user 0]
   \<and> (\<exists>u \<in> set (users (ex_db 1 [ex_post 1 42 ''Hello'' 1] [ex_log 1 42 1 0 None])).
        u_id u = log_user_id (ex_pending 1 1) \<and> u_chat_id u = log_chat_id (ex_pending 1 1))"
proof -
  let ?ch = "ex_rejects ''FORBIDDEN: BOT WAS BLOCKED BY THE USER''"
  let ?err = "\<lparr>err_message = Some ''FORBIDDEN: BOT WAS BLOCKED BY THE USER'',
             err_description = None, err_string = ''FORBIDDEN: BOT WAS BLOCKED BY THE USER''\<rparr>"
  let ?db = "ex_db 1 [ex_post 1 42 ''Hello'' 1] [ex_log 1 42 1 0 None]"
  have h: "?ch (log_chat_id (ex_pending 1 1)) (post_of (ex_pending 1 1))
             (matchedKeywords_of (ex_pending 1 1)) = Some ?err" by simp
  have f1: "no_faults (UpdateLogFailed (log_id (ex_pending 1 1))) = None"
    and f2: "no_faults (DeactivateUser (log_chat_id (ex_pending 1 1))) = None"
    by (simp_all add: no_faults_def)
  have p: "ex_pending 1 1 \<in> set (pendingLogs ?db)" by code_simp
  have c: "u_chat_id (ex_user 1) = log_chat_id (ex_pending 1 1)" by simp
  have b: "\<exists>b \<in> set blockedErrors.
             sublist (ascii_toLowerCase b) (ascii_toLowerCase (errorMessage ?err))"
    unfolding is_blocked_iff[symmetric] by code_simp
  have m: "map (deactivate_row (log_chat_id (ex_pending 1 1))) (users ?db) = [ex_user 0]"
    by (simp add: deactivate_row_def)
  note inst = deactivation_trigger[where ch = ?ch and log = "ex_pending 1 1" and f = no_faults
      and lc = ascii_toLowerCase and s = 0 and fl = 0 and db = ?db]
  from inst h f1 f2 b
  have "users (snd (snd (snd (process_log ascii_toLowerCase no_faults ?ch (ex_pending 1 1) (0, 0, ?db)))))
          = map (deactivate_row (log_chat_id (ex_pending 1 1))) (users ?db)"
    by presburger
  then have u: "users (snd (snd (snd (process_log ascii_toLowerCase no_faults ?ch (ex_pending 1 1) (0, 0, ?db)))))
          = [ex_user 0]"
    using m by simp
  from inst p
  have s: "\<exists>u \<in> set (users ?db).
        u_id u = log_user_id (ex_pending 1 1) \<and> u_chat_id u = log_chat_id (ex_pending 1 1)"
    by blast
  from h f1 f2 p c u s show ?thesis by blast
qed


lemma push_logs_process_sent:
  assumes "ch (log_chat_id log) (post_of log) (matchedKeywords_of log) = None"
    and "f (UpdateLogSent (log_id log)) = None"
  shows "push_logs (snd (snd (snd (process_log lc f ch log (s, fl, db))))) =
           map (set_status (log_id log) None) (push_logs db)"
  unfolding process_log_def try_send_sent[where ch = ch and log = log, OF assms(1)]
  using assms(2) by (simp add: update_log_simps)

lemma push_logs_process_failed:
  assumes "ch (log_chat_id log) (post_of log) (matchedKeywords_of log) = Some error"
    and "f (UpdateLogFailed (log_id log)) = None"
  shows "push_logs (snd (snd (snd (process_log lc f ch log (s, fl, db))))) =
           map (set_status (log_id log) (Some (errorMessage error))) (push_logs db)"
  unfolding process_log_def try_send_failed[where ch = ch and log = log, OF assms(1)]
  using assms(2) by (simp add: update_log_simps deactivateUser_simps)

lemma push_logs_process_caught:
  assumes "try_send lc f ch log (s, fl, db) = (Some e, st)"
    and "f (UpdateLogCaught (log_id log)) = None"
  shows "push_logs (snd (snd (snd (process_log lc f ch log (s, fl, db))))) =
           map (set_status (log_id log) (Some e)) (push_logs db)"
  unfolding process_log_caught[OF assms] by (simp add: update_log_simps)

lemma pushTask_written:
  assumes "l \<in> set (push_logs (snd (pushTask lc f ch db)))"
  shows "l \<in> set (push_logs db) \<or> push_status l = 1"
proof (cases "f SelectPending")
  case (Some x)
  then have "snd (pushTask lc f ch db) = db" by (simp add: pushTask_def)
  with assms show ?thesis by simp
next
  case None
  show ?thesis
  proof (cases "pendingLogs db = []")
    case True
    with assms pushTask_result(1)[where f = f, OF None True] show ?thesis by simp
  next
    case False
    obtain e a b db' where r: "for_logs lc f ch (pendingLogs db) (0, 0, db) = (e, a, b, db')"
      by (metis prod.collapse)
    have "snd (pushTask lc f ch db) = db'"
    proof (cases e)
      case ok: None
      from pushTask_result(2)[where f = f, OF None False r[unfolded ok]] show ?thesis by simp
    next
      case (Some x)
      from pushTask_result(3)[where f = f, OF None False r[unfolded Some]] show ?thesis by simp
    qed
    with assms have "l \<in> set (push_logs db')" by simp
    from for_logs_written[OF r this] show ?thesis .
  qed
qed

lemma join_log_complete:
  assumes "p \<in> set (posts db)" "sql_eq (pl_post_id l) (post_id p)"
    "ks \<in> set (keywords_sub db)" "pl_sub_id l = ks_id ks"
    "u \<in> set (users db)" "pl_user_id l = u_id u"
  shows "joined l p ks u \<in> set (join_log db l)"
  using assms unfolding join_log_def by auto

lemma join_log_sound:
  assumes "r \<in> set (join_log db l)"
  shows "\<exists>p \<in> set (posts db). \<exists>ks \<in> set (keywords_sub db). \<exists>u \<in> set (users db).
           sql_eq (pl_post_id l) (post_id p) \<and> pl_sub_id l = ks_id ks \<and> pl_user_id l = u_id u \<and>
           r = joined l p ks u"
  using assms unfolding join_log_def by auto

lemma pendingLogs_sound:
  assumes "r \<in> set (pendingLogs db)"
  shows "\<exists>l \<in> set (push_logs db). \<exists>p \<in> set (posts db). \<exists>ks \<in> set (keywords_sub db).
           \<exists>u \<in> set (users db).
           push_status l = 0 \<and> sql_eq (pl_post_id l) (post_id p) \<and> pl_sub_id l = ks_id ks \<and>
           pl_user_id l = u_id u \<and> r = joined l p ks u"
proof -
  from assms have "r \<in> set (concat (map (join_log db) (filter (\<lambda>pl. push_status pl = 0) (push_logs db))))"
    unfolding pendingLogs_def by (rule in_set_takeD)
  then obtain l where l: "l \<in> set (push_logs db)" "push_status l = 0" "r \<in> set (join_log db l)"
    by auto
  from join_log_sound[OF l(3)] l(1,2) show ?thesis by blast
qed

lemma pendingLogs_complete:
  assumes "length (concat (map (join_log db) (filter (\<lambda>pl. push_status pl = 0) (push_logs db)))) \<le> 100"
    and "l \<in> set (push_logs db)" "push_status l = 0"
    and "p \<in> set (posts db)" "sql_eq (pl_post_id l) (post_id p)"
    "ks \<in> set (keywords_sub db)" "pl_sub_id l = ks_id ks"
    "u \<in> set (users db)" "pl_user_id l = u_id u"
  shows "joined l p ks u \<in> set (pendingLogs db)"
proof -
  have "pendingLogs db = concat (map (join_log db) (filter (\<lambda>pl. push_status pl = 0) (push_logs db)))"
    unfolding pendingLogs_def using assms(1) by simp
  moreover have "joined l p ks u \<in> set (join_log db l)"
    by (rule join_log_complete[OF assms(4-9)])
  ultimately show ?thesis using assms(2,3) by auto
qed

text \<open>
  Claim C10, as stated, fails: the pending query does not select exactly the rows of status 0.
  It joins the ledger with the posts, the filters and the users and stops at 100 rows. A ledger
  row of status 0 whose filter has been removed is not selected, and a dispatch run that
  delivers everything leaves it as it is; of 101 rows of status 0 that all join, 100 are
  selected.
\<close>

theorem pendingLogs_not_all_pending_counterexample:
  "push_status (ex_log 1 42 3 0 None) = 0
   \<and> pendingLogs (ex_db 1 [ex_post 1 42 ''Hello'' 1] [ex_log 1 42 3 0 None]) = []
   \<and> push_logs (snd (pushTask ascii_toLowerCase no_faults ex_delivers
        (ex_db 1 [ex_post 1 42 ''Hello'' 1] [ex_log 1 42 3 0 None])))
      = [ex_log 1 42 3 0 None]
   \<and> length (filter (\<lambda>l. push_status l = 0) (map (\<lambda>i. ex_log (int i) 42 1 0 None) [1..<102])) = 101
   \<and> length (pendingLogs (ex_db 1 [ex_post 1 42 ''Hello'' 1]
        (map (\<lambda>i. ex_log (int i) 42 1 0 None) [1..<102]))) = 100"
proof -
  have a: "push_status (ex_log 1 42 3 0 None) = 0" by simp
  have b: "pendingLogs (ex_db 1 [ex_post 1 42 ''Hello'' 1] [ex_log 1 42 3 0 None]) = []"
    by code_simp
  have c: "push_logs (snd (pushTask ascii_toLowerCase no_faults ex_delivers
        (ex_db 1 [ex_post 1 42 ''Hello'' 1] [ex_log 1 42 3 0 None])))
      = [ex_log 1 42 3 0 None]"
    by code_simp
  have d: "length (filter (\<lambda>l. push_status l = 0)
             (map (\<lambda>i. ex_log (int i) 42 1 0 None) [1..<102])) = 101"
    by (simp add: filter_map o_def)
  have e: "length (pendingLogs (ex_db 1 [ex_post 1 42 ''Hello'' 1]
        (map (\<lambda>i. ex_log (int i) 42 1 0 None) [1..<102]))) = 100"
    by code_simp
  show ?thesis by (intro conjI a b c d e)
qed

text \<open>
  Claim C10, amended. A delivered row is written with status 1 and error \<open>NULL\<close>; a row whose
  send fails is written with status 1 and the error message; a row whose processing throws is
  written with status 1 and the text of the exception: the three writes differ in the error
  field only. The pending query selects only rows of status 0: each selected row is the join
  of a ledger row of status 0 with a post of its key, its filter and its user. It selects at
  most 100 rows, and when the joined rows of status 0 number at most 100, it selects every one
  of them. After any dispatch run each ledger row is either a row that was there before or has
  status 1, so the run stores no status but 1.
\<close>

theorem ledger_status_values:
  "(ch (log_chat_id log) (post_of log) (matchedKeywords_of log) = None \<and>
    f (UpdateLogSent (log_id log)) = None
      \<longrightarrow> push_logs (snd (snd (snd (process_log lc f ch log (s, fl, db))))) =
            map (set_status (log_id log) None) (push_logs db))
   \<and> (ch (log_chat_id log) (post_of log) (matchedKeywords_of log) = Some error \<and>
      f (UpdateLogFailed (log_id log)) = None
      \<longrightarrow> push_logs (snd (snd (snd (process_log lc f ch log (s, fl, db))))) =
            map (set_status (log_id log) (Some (errorMessage error))) (push_logs db))
   \<and> (try_send lc f ch log (s, fl, db) = (Some e, st) \<and> f (UpdateLogCaught (log_id log)) = None
      \<longrightarrow> push_logs (snd (snd (snd (process_log lc f ch log (s, fl, db))))) =
            map (set_status (log_id log) (Some e)) (push_logs db))
   \<and> (\<forall>l err. pl_id l = log_id log
        \<longrightarrow> set_status (log_id log) err l = l\<lparr>push_status := 1, error_message := err\<rparr>)
   \<and> (\<forall>l err. pl_id l \<noteq> log_id log \<longrightarrow> set_status (log_id log) err l = l)
   \<and> (\<forall>r \<in> set (pendingLogs db).
        \<exists>l \<in> set (push_logs db). \<exists>p \<in> set (posts db). \<exists>ks \<in> set (keywords_sub db).
        \<exists>u \<in> set (users db).
          push_status l = 0 \<and> sql_eq (pl_post_id l) (post_id p) \<and> pl_sub_id l = ks_id ks \<and>
          pl_user_id l = u_id u \<and> r = joined l p ks u)
   \<and> (length (concat (map (join_log db) (filter (\<lambda>l. push_status l = 0) (push_logs db)))) \<le> 100
      \<longrightarrow> (\<forall>l \<in> set (push_logs db). \<forall>p \<in> set (posts db). \<forall>ks \<in> set (keywords_sub db).
           \<forall>u \<in> set (users db).
             push_status l = 0 \<and> sql_eq (pl_post_id l) (post_id p) \<and> pl_sub_id l = ks_id ks \<and>
             pl_user_id l = u_id u
             \<longrightarrow> joined l p ks u \<in> set (pendingLogs db)))
   \<and> length (pendingLogs db) \<le> 100
   \<and> (\<forall>l \<in> set (push_logs (snd (pushTask lc f ch db))). l \<in> set (push_logs db) \<or> push_status l = 1)"
proof -
  have a: "ch (log_chat_id log) (post_of log) (matchedKeywords_of log) = None \<and>
    f (UpdateLogSent (log_id log)) = None
      \<longrightarrow> push_logs (snd (snd (snd (process_log lc f ch log (s, fl, db))))) =
            map (set_status (log_id log) None) (push_logs db)"
    using push_logs_process_sent[where ch = ch and log = log and f = f] by blast
  have b: "ch (log_chat_id log) (post_of log) (matchedKeywords_of log) = Some error \<and>
      f (UpdateLogFailed (log_id log)) = None
      \<longrightarrow> push_logs (snd (snd (snd (process_log lc f ch log (s, fl, db))))) =
            map (set_status (log_id log) (Some (errorMessage error))) (push_logs db)"
    using push_logs_process_failed[where ch = ch and log = log and f = f] by blast
  have c: "try_send lc f ch log (s, fl, db) = (Some e, st) \<and> f (UpdateLogCaught (log_id log)) = None
      \<longrightarrow> push_logs (snd (snd (snd (process_log lc f ch log (s, fl, db))))) =
            map (set_status (log_id log) (Some e)) (push_logs db)"
    using push_logs_process_caught[where ch = ch and log = log and f = f] by blast
  have d: "\<forall>l err. pl_id l = log_id log
        \<longrightarrow> set_status (log_id log) err l = l\<lparr>push_status := 1, error_message := err\<rparr>"
    by (simp add: set_status_def)
  have d': "\<forall>l err. pl_id l \<noteq> log_id log \<longrightarrow> set_status (log_id log) err l = l"
    by (simp add: set_status_def)
  have e: "\<forall>r \<in> set (pendingLogs db).
        \<exists>l \<in> set (push_logs db). \<exists>p \<in> set (posts db). \<exists>ks \<in> set (keywords_sub db).
        \<exists>u \<in> set (users db).
          push_status l = 0 \<and> sql_eq (pl_post_id l) (post_id p) \<and> pl_sub_id l = ks_id ks \<and>
          pl_user_id l = u_id u \<and> r = joined l p ks u"
    using pendingLogs_sound by blast
  have i: "length (concat (map (join_log db) (filter (\<lambda>l. push_status l = 0) (push_logs db)))) \<le> 100
      \<longrightarrow> (\<forall>l \<in> set (push_logs db). \<forall>p \<in> set (posts db). \<forall>ks \<in> set (keywords_sub db).
           \<forall>u \<in> set (users db).
             push_status l = 0 \<and> sql_eq (pl_post_id l) (post_id p) \<and> pl_sub_id l = ks_id ks \<and>
             pl_user_id l = u_id u
             \<longrightarrow> joined l p ks u \<in> set (pendingLogs db))"
    using pendingLogs_complete[where db = db] by blast
  have h: "length (pendingLogs db) \<le> 100" by (simp add: pendingLogs_def)
  have g: "\<forall>l \<in> set (push_logs (snd (pushTask lc f ch db))). l \<in> set (push_logs db) \<or> push_status l = 1"
    using pushTask_written by blast
  show ?thesis by (intro conjI a b c d d' e i h g)
qed

text \<open>
  The same pending row, delivered and rejected: status 1 both times, the error field differs.
  Both rows of the ledger are pending and join, so the query selects the first of them.
\<close>

theorem ledger_status_values_witness:
  "push_logs (snd (snd (snd (process_log ascii_toLowerCase no_faults ex_delivers (ex_pending 1 1)
      (0, 0, ex_db 1 [ex_post 1 42 ''Hello'' 1] [ex_log 1 42 1 0 None, ex_log 2 42 2 0 None])))))
     = [ex_log 1 42 1 1 None, ex_log 2 42 2 0 None]
   \<and> push_logs (snd (snd (snd (process_log ascii_toLowerCase no_faults (ex_rejects ''boom'') (ex_pending 1 1)
      (0, 0, ex_db 1 [ex_post 1 42 ''Hello'' 1] [ex_log 1 42 1 0 None, ex_log 2 42 2 0 None])))))
     = [ex_log 1 42 1 1 (Some ''boom''), ex_log 2 42 2 0 None]
   \<and> length (concat (map (join_log (ex_db 1 [ex_post 1 42 ''Hello'' 1]
                                     [ex_log 1 42 1 0 None, ex_log 2 42 2 0 None]))
        (filter (\<lambda>l. push_status l = 0)
           (push_logs (ex_db 1 [ex_post 1 42 ''Hello'' 1]
                         [ex_log 1 42 1 0 None, ex_log 2 42 2 0 None]))))) \<le> 100
   \<and> ex_pending 1 1 \<in> set (pendingLogs (ex_db 1 [ex_post 1 42 ''Hello'' 1]
        [ex_log 1 42 1 0 None, ex_log 2 42 2 0 None]))"
proof -
  let ?db = "ex_db 1 [ex_post 1 42 ''Hello'' 1] [ex_log 1 42 1 0 None, ex_log 2 42 2 0 None]"
  let ?boom = "\<lparr>err_message = Some ''boom'', err_description = None, err_string = ''boom''\<rparr>"
  let ?ks = "\<lparr>ks_id = 1, ks_user_id = 1, keywords_count = 1, keyword1 = ''hello'',
              keyword2 = None, keyword3 = None, ks_is_active = 1\<rparr>"
  have h1: "ex_delivers (log_chat_id (ex_pending 1 1)) (post_of (ex_pending 1 1))
              (matchedKeywords_of (ex_pending 1 1)) = None" by simp
  have h2: "ex_rejects ''boom'' (log_chat_id (ex_pending 1 1)) (post_of (ex_pending 1 1))
              (matchedKeywords_of (ex_pending 1 1)) = Some ?boom" by simp
  have f1: "no_faults (UpdateLogSent (log_id (ex_pending 1 1))) = None"
    and f2: "no_faults (UpdateLogFailed (log_id (ex_pending 1 1))) = None"
    by (simp_all add: no_faults_def)
  have m1: "map (set_status (log_id (ex_pending 1 1)) None) (push_logs ?db)
              = [ex_log 1 42 1 1 None, ex_log 2 42 2 0 None]"
    by (simp add: set_status_def)
  have e: "errorMessage ?boom = ''boom''" by (simp add: errorMessage_def truthy_def)
  have m2: "map (set_status (log_id (ex_pending 1 1)) (Some (errorMessage ?boom))) (push_logs ?db)
              = [ex_log 1 42 1 1 (Some ''boom''), ex_log 2 42 2 0 None]"
    unfolding e by (simp add: set_status_def)
  note inst1 = ledger_status_values[where ch = ex_delivers and log = "ex_pending 1 1"
      and f = no_faults and lc = ascii_toLowerCase and s = 0 and fl = 0 and db = ?db]
  from inst1 h1 f1
  have r1: "push_logs (snd (snd (snd (process_log ascii_toLowerCase no_faults ex_delivers (ex_pending 1 1) (0, 0, ?db)))))
          = map (set_status (log_id (ex_pending 1 1)) None) (push_logs ?db)" by blast
  from ledger_status_values[where ch = "ex_rejects ''boom''" and log = "ex_pending 1 1"
      and f = no_faults and s = 0 and fl = 0 and db = ?db and error = ?boom] h2 f2
  have r2: "push_logs (snd (snd (snd (process_log ascii_toLowerCase no_faults (ex_rejects ''boom'') (ex_pending 1 1)
              (0, 0, ?db)))))
          = map (set_status (log_id (ex_pending 1 1)) (Some (errorMessage ?boom))) (push_logs ?db)"
    by blast
  have len: "length (concat (map (join_log ?db)
               (filter (\<lambda>l. push_status l = 0) (push_logs ?db)))) \<le> 100"
    by code_simp
  have lm: "ex_log 1 42 1 0 None \<in> set (push_logs ?db)" by simp
  have pm: "ex_post 1 42 ''Hello'' 1 \<in> set (posts ?db)" by simp
  have km: "?ks \<in> set (keywords_sub ?db)" by simp
  have um: "ex_user 1 \<in> set (users ?db)" by simp
  have cond: "push_status (ex_log 1 42 1 0 None) = 0 \<and>
      sql_eq (pl_post_id (ex_log 1 42 1 0 None)) (post_id (ex_post 1 42 ''Hello'' 1)) \<and>
      pl_sub_id (ex_log 1 42 1 0 None) = ks_id ?ks \<and>
      pl_user_id (ex_log 1 42 1 0 None) = u_id (ex_user 1)"
    by (simp add: sql_eq_def)
  note conv = inst1[THEN conjunct2, THEN conjunct2, THEN conjunct2, THEN conjunct2,
      THEN conjunct2, THEN conjunct2, THEN conjunct1]
  note sel = conv[THEN mp, OF len, THEN bspec, OF lm, THEN bspec, OF pm, THEN bspec, OF km,
      THEN bspec, OF um, THEN mp, OF cond]
  have j: "joined (ex_log 1 42 1 0 None) (ex_post 1 42 ''Hello'' 1) ?ks (ex_user 1) = ex_pending 1 1"
    by (simp add: joined_def)
  from sel have p: "ex_pending 1 1 \<in> set (pendingLogs ?db)" unfolding j .
  show ?thesis
    apply (intro conjI)
       apply (simp only: r1 m1)
      apply (simp only: r2 m2)
     apply (rule len)
    apply (rule p)
    done
qed

section \<open>Properties of the ingestion\<close>

lemma rssMonitorTask_snd:
  "snd (rssMonitorTask lc f response db) =
     (if fetchRSSData response = [] then db
      else if getUnpushedPosts f (snd (savePostsToDatabase f db (fetchRSSData response))) 50 = []
      then snd (savePostsToDatabase f db (fetchRSSData response))
      else snd (snd (createPushLogs lc f (snd (savePostsToDatabase f db (fetchRSSData response)))
             (getUnpushedPosts f (snd (savePostsToDatabase f db (fetchRSSData response))) 50))))"
  by (simp add: rssMonitorTask_def rssMonitorTask_steps_def Let_def case_prod_beta)

lemma getUnpushedPosts_empty:
  "getUnpushedPosts no_faults db 50 = [] \<longleftrightarrow> (\<forall>r \<in> set (posts db). is_push r \<noteq> 0)"
  by (simp add: getUnpushedPosts_def no_faults_def filter_empty_conv)

lemma insert_post_posts:
  "posts (insert_post db p) = posts db @
      [\<lparr>db_id = next_id (map db_id (posts db)), post_id = parseInt (rss_id p),
        title = rss_title p, content = rss_description p, pub_date = rss_pubDate p,
        category = rss_category p, creator = rss_creator p, is_push = 0\<rparr>]"
  by (simp add: insert_post_def)

lemma save_loop_no_faults_step:
  "save_loop no_faults (p # ps) (n, db) =
     (if select_post db (parseInt (rss_id p)) = None
      then save_loop no_faults ps (Suc n, insert_post db p)
      else save_loop no_faults ps (n, db))"
  by (simp add: no_faults_def split: option.splits)

lemma save_loop_no_faults_None: "fst (save_loop no_faults ps st) = None"
proof (induction ps arbitrary: st)
  case Nil
  then show ?case by (cases st) simp
next
  case (Cons p ps)
  obtain n db where st: "st = (n, db)" by (cases st)
  show ?case unfolding st save_loop_no_faults_step using Cons.IH by simp
qed

lemma save_loop_no_faults_mono:
  "r \<in> set (posts db) \<Longrightarrow> r \<in> set (posts (snd (snd (save_loop no_faults ps (n, db)))))"
proof (induction ps arbitrary: n db)
  case Nil
  then show ?case by simp
next
  case (Cons p ps)
  show ?case
  proof (cases "select_post db (parseInt (rss_id p)) = None")
    case True
    then have eq: "save_loop no_faults (p # ps) (n, db) = save_loop no_faults ps (Suc n, insert_post db p)"
      by (simp add: save_loop_no_faults_step del: save_loop.simps)
    from Cons.prems have "r \<in> set (posts (insert_post db p))" by (simp add: insert_post_posts)
    then show ?thesis unfolding eq by (rule Cons.IH)
  next
    case False
    then have eq: "save_loop no_faults (p # ps) (n, db) = save_loop no_faults ps (n, db)"
      by (auto simp add: save_loop_no_faults_step simp del: save_loop.simps)
    show ?thesis unfolding eq by (rule Cons.IH[OF Cons.prems])
  qed
qed

lemma save_loop_no_faults_present:
  "p \<in> set ps \<Longrightarrow>
     (parseInt (rss_id p) \<noteq> None \<and>
      parseInt (rss_id p) \<in> post_id ` set (posts (snd (snd (save_loop no_faults ps (n, db)))))) \<or>
     (\<exists>r \<in> set (posts (snd (snd (save_loop no_faults ps (n, db))))). post_id r = None \<and> is_push r = 0)"
proof (induction ps arbitrary: n db)
  case Nil
  then show ?case by simp
next
  case (Cons q qs)
  let ?k = "parseInt (rss_id q)"
  show ?case
  proof (cases "p = q")
    case False
    with Cons.prems have m: "p \<in> set qs" by simp
    show ?thesis
    proof (cases "select_post db ?k = None")
      case True
      then have eq: "save_loop no_faults (q # qs) (n, db) = save_loop no_faults qs (Suc n, insert_post db q)"
        by (simp add: save_loop_no_faults_step del: save_loop.simps)
      show ?thesis unfolding eq by (rule Cons.IH[OF m])
    next
      case False
      then have eq: "save_loop no_faults (q # qs) (n, db) = save_loop no_faults qs (n, db)"
        by (auto simp add: save_loop_no_faults_step simp del: save_loop.simps)
      show ?thesis unfolding eq by (rule Cons.IH[OF m])
    qed
  next
    case pq: True
    show ?thesis
    proof (cases "select_post db ?k = None")
      case False
      then have eq: "save_loop no_faults (q # qs) (n, db) = save_loop no_faults qs (n, db)"
        by (auto simp add: save_loop_no_faults_step simp del: save_loop.simps)
      from False have "?k \<noteq> None \<and> ?k \<in> post_id ` set (posts db)"
        using select_post_None[of db ?k] by simp
      then obtain r where r: "?k \<noteq> None" "r \<in> set (posts db)" "post_id r = ?k" by auto
      from save_loop_no_faults_mono[OF r(2), of qs n]
      have "post_id r \<in> post_id ` set (posts (snd (snd (save_loop no_faults qs (n, db)))))"
        by (rule imageI)
      with r(1,3) pq have "parseInt (rss_id p) \<noteq> None \<and>
        parseInt (rss_id p) \<in> post_id ` set (posts (snd (snd (save_loop no_faults qs (n, db)))))"
        by simp
      then show ?thesis unfolding eq by (rule disjI1)
    next
      case True
      then have eq: "save_loop no_faults (q # qs) (n, db) = save_loop no_faults qs (Suc n, insert_post db q)"
        by (simp add: save_loop_no_faults_step del: save_loop.simps)
      obtain r0 where r0: "posts (insert_post db q) = posts db @ [r0]" "post_id r0 = ?k" "is_push r0 = 0"
        by (simp add: insert_post_posts)
      have "r0 \<in> set (posts (insert_post db q))" by (simp add: r0(1))
      from save_loop_no_faults_mono[OF this, of qs "Suc n"]
      have in2: "r0 \<in> set (posts (snd (snd (save_loop no_faults qs (Suc n, insert_post db q)))))" .
      have "(parseInt (rss_id p) \<noteq> None \<and>
              parseInt (rss_id p) \<in> post_id ` set (posts (snd (snd (save_loop no_faults qs (Suc n, insert_post db q)))))) \<or>
            (\<exists>r \<in> set (posts (snd (snd (save_loop no_faults qs (Suc n, insert_post db q))))).
                post_id r = None \<and> is_push r = 0)"
      proof (cases "?k = None")
        case kn: True
        with r0 have "post_id r0 = None \<and> is_push r0 = 0" by simp
        with in2 show ?thesis by (intro disjI2 bexI[of _ r0])
      next
        case kf: False
        from in2 have "post_id r0 \<in> post_id ` set (posts (snd (snd (save_loop no_faults qs (Suc n, insert_post db q)))))"
          by (rule imageI)
        with r0(2) kf pq show ?thesis by simp
      qed
      then show ?thesis unfolding eq .
    qed
  qed
qed

lemma save_loop_noop:
  assumes "\<forall>p \<in> set ps. parseInt (rss_id p) \<noteq> None \<and> parseInt (rss_id p) \<in> post_id ` set (posts db)"
  shows "save_loop no_faults ps (n, db) = (None, n, db)"
  using assms
proof (induction ps)
  case Nil
  then show ?case by simp
next
  case (Cons p ps)
  let ?k = "parseInt (rss_id p)"
  from Cons.prems have "?k \<noteq> None \<and> ?k \<in> post_id ` set (posts db)" by simp
  then have "select_post db ?k \<noteq> None" using select_post_None[of db ?k] by simp
  then obtain x where "select_post db ?k = Some x" by auto
  moreover have "no_faults (SelectPost ?k) = None" by (simp add: no_faults_def)
  moreover from Cons have "save_loop no_faults ps (n, db) = (None, n, db)" by simp
  ultimately show ?case by simp
qed

lemma mark_row_simps:
  "post_id (mark_row k r) = post_id r"
  "post_id r = None \<Longrightarrow> mark_row k r = r"
  by (simp_all add: mark_row_def sql_eq_def)

lemma markPostAsPushed_keeps:
  "map post_id (posts (markPostAsPushed f db k)) = map post_id (posts db)"
  "r \<in> set (posts db) \<Longrightarrow> post_id r = None \<Longrightarrow> r \<in> set (posts (markPostAsPushed f db k))"
proof -
  show "map post_id (posts (markPostAsPushed f db k)) = map post_id (posts db)"
    by (cases "f (MarkPost k)") (simp_all add: markPostAsPushed_def mark_row_simps)
  assume r: "r \<in> set (posts db)" "post_id r = None"
  then have "mark_row k r \<in> set (map (mark_row k) (posts db))" by simp
  with r(2) have "r \<in> set (map (mark_row k) (posts db))" by (simp add: mark_row_simps)
  then show "r \<in> set (posts (markPostAsPushed f db k))"
    using r(1) by (cases "f (MarkPost k)") (simp_all add: markPostAsPushed_def)
qed

lemma insert_log_posts: "posts (insert_log db user post keywords) = posts db"
  by (simp add: insert_log_def)

lemma scan_keywordSubs_posts:
  "scan_keywordSubs lc f post user ks (t, c, db) = (e, t', c', db') \<Longrightarrow> posts db' = posts db"
proof (induction ks)
  case Nil
  then show ?case by simp
next
  case (Cons k ks)
  show ?case
  proof (cases "matchKeywords lc post k")
    case False
    with Cons show ?thesis by simp
  next
    case True
    with Cons.prems have "db' = db \<or> db' = insert_log db user post k"
      by (auto split: option.splits)
    then show ?thesis by (auto simp: insert_log_posts)
  qed
qed

lemma for_users_posts:
  "for_users lc f post us (t, c, db) = (e, t', c', db') \<Longrightarrow> posts db' = posts db"
proof (induction us arbitrary: t c db)
  case Nil
  then show ?case by simp
next
  case (Cons u us)
  obtain e1 t1 c1 db1 where p: "fanout_pair lc f post u (t, c, db) = (e1, t1, c1, db1)"
    by (metis prod.collapse)
  then have p1: "posts db1 = posts db"
    unfolding fanout_pair_def by (simp add: scan_keywordSubs_posts)
  show ?case
  proof (cases e1)
    case None
    with Cons.prems p have "for_users lc f post us (t1, c1, db1) = (e, t', c', db')" by simp
    from Cons.IH[OF this] p1 show ?thesis by simp
  next
    case (Some x)
    with Cons.prems p have "db' = db1" by simp
    with p1 show ?thesis by simp
  qed
qed

lemma for_posts_keeps:
  "for_posts lc f us ps (t, c, db) = (e, t', c', db') \<Longrightarrow>
     map post_id (posts db') = map post_id (posts db) \<and>
     (\<forall>r \<in> set (posts db). post_id r = None \<longrightarrow> r \<in> set (posts db'))"
proof (induction ps arbitrary: t c db)
  case Nil
  then show ?case by simp
next
  case (Cons p ps)
  obtain e1 t1 c1 db1 where u: "for_users lc f p us (t, c, db) = (e1, t1, c1, db1)"
    by (metis prod.collapse)
  have p1: "posts db1 = posts db" by (rule for_users_posts[OF u])
  show ?case
  proof (cases e1)
    case (Some x)
    with Cons.prems u have "db' = db1" by simp
    with p1 show ?thesis by simp
  next
    case None
    let ?db2 = "markPostAsPushed f db1 (post_id p)"
    from None Cons.prems u have "for_posts lc f us ps (t1, c1, ?db2) = (e, t', c', db')" by simp
    note ih = Cons.IH[OF this]
    have k2: "map post_id (posts ?db2) = map post_id (posts db)"
      using markPostAsPushed_keeps(1)[of f db1 "post_id p"] p1 by simp
    have n2: "\<forall>r \<in> set (posts db). post_id r = None \<longrightarrow> r \<in> set (posts ?db2)"
      using markPostAsPushed_keeps(2)[of _ db1 f "post_id p"] p1 by simp
    from ih k2 n2 show ?thesis by auto
  qed
qed

lemma createPushLogs_keeps:
  "map post_id (posts (snd (snd (createPushLogs lc f db ps)))) = map post_id (posts db)"
  "r \<in> set (posts db) \<Longrightarrow> post_id r = None \<Longrightarrow> r \<in> set (posts (snd (snd (createPushLogs lc f db ps))))"
proof -
  obtain e t c db' where r: "for_posts lc f (getActiveUsers f db) ps (0, 0, db) = (e, t, c, db')"
    by (metis prod.collapse)
  then have s: "snd (snd (createPushLogs lc f db ps)) = db'" by (simp add: createPushLogs_def)
  from for_posts_keeps[OF r] show "map post_id (posts (snd (snd (createPushLogs lc f db ps)))) = map post_id (posts db)"
    unfolding s by simp
  assume "r \<in> set (posts db)" "post_id r = None"
  with for_posts_keeps[OF r] show "r \<in> set (posts (snd (snd (createPushLogs lc f db ps))))"
    unfolding s by simp
qed


text \<open>
  Claim C4, amended. On a store whose statements succeed, when the first run of the ingestion
  leaves no post unmatched, a second run on the same response changes nothing: it inserts no
  post and no obligation, and the store after it is the store after the first run.
\<close>

theorem ingestion_idempotent:
  assumes "getUnpushedPosts no_faults (snd (rssMonitorTask lc no_faults response db)) 50 = []"
  shows "snd (rssMonitorTask lc no_faults response (snd (rssMonitorTask lc no_faults response db)))
           = snd (rssMonitorTask lc no_faults response db)"
proof (cases "fetchRSSData response = []")
  case True
  then show ?thesis by (simp add: rssMonitorTask_snd)
next
  case False
  let ?rss = "fetchRSSData response"
  let ?db1 = "snd (savePostsToDatabase no_faults db ?rss)"
  let ?db2 = "snd (rssMonitorTask lc no_faults response db)"
  have db1: "?db1 = snd (snd (save_loop no_faults ?rss (0, db)))"
    by (simp add: savePostsToDatabase_def)
  have two: "?db2 = ?db1 \<or> ?db2 = snd (snd (createPushLogs lc no_faults ?db1 (getUnpushedPosts no_faults ?db1 50)))"
    using False by (simp add: rssMonitorTask_snd)
  let ?db1' = "snd (snd (createPushLogs lc no_faults ?db1 (getUnpushedPosts no_faults ?db1 50)))"
  have keys: "map post_id (posts ?db2) = map post_id (posts ?db1)"
    using two
  proof
    assume "?db2 = ?db1"
    then show ?thesis by simp
  next
    assume "?db2 = ?db1'"
    then show ?thesis by (simp only: createPushLogs_keeps(1))
  qed
  have nulls: "r \<in> set (posts ?db2)" if "r \<in> set (posts ?db1)" "post_id r = None" for r
    using two
  proof
    assume "?db2 = ?db1"
    with that(1) show ?thesis by simp
  next
    assume e: "?db2 = ?db1'"
    have "r \<in> set (posts ?db1')" by (rule createPushLogs_keeps(2)[OF that])
    then show ?thesis by (simp only: e)
  qed
  from assms have pushed: "\<forall>r \<in> set (posts ?db2). is_push r \<noteq> 0"
    by (simp add: getUnpushedPosts_empty)
  have keyset: "post_id ` set (posts ?db2) = post_id ` set (posts ?db1)"
    using keys by (metis set_map)
  have present: "\<forall>p \<in> set ?rss. parseInt (rss_id p) \<noteq> None \<and>
                   parseInt (rss_id p) \<in> post_id ` set (posts ?db2)"
  proof
    fix p assume p: "p \<in> set ?rss"
    from save_loop_no_faults_present[OF p, of 0 db]
    have "(parseInt (rss_id p) \<noteq> None \<and> parseInt (rss_id p) \<in> post_id ` set (posts ?db1)) \<or>
          (\<exists>r \<in> set (posts ?db1). post_id r = None \<and> is_push r = 0)"
      unfolding db1 .
    then show "parseInt (rss_id p) \<noteq> None \<and> parseInt (rss_id p) \<in> post_id ` set (posts ?db2)"
    proof
      assume "parseInt (rss_id p) \<noteq> None \<and> parseInt (rss_id p) \<in> post_id ` set (posts ?db1)"
      then show ?thesis unfolding keyset .
    next
      assume "\<exists>r \<in> set (posts ?db1). post_id r = None \<and> is_push r = 0"
      then obtain r where r: "r \<in> set (posts ?db1)" "post_id r = None" "is_push r = 0" by blast
      from nulls[OF r(1,2)] pushed r(3) show ?thesis by blast
    qed
  qed
  have again: "snd (savePostsToDatabase no_faults ?db2 ?rss) = ?db2"
    unfolding savePostsToDatabase_def save_loop_noop[OF present] by simp
  show ?thesis
    unfolding rssMonitorTask_snd[of lc no_faults response ?db2] again
    using False assms by simp
qed


lemma ex_parse:
  "parseRSSXML ''<item><title>Hello</title><link>post-1-1</link></item>''
     = [\<lparr>rss_id = ''1'', rss_title = ''Hello'', rss_description = [], rss_pubDate = [],
         rss_category = no_category, rss_creator = no_creator\<rparr>]"
  by code_simp

lemma ex_backlog_saved:
  "snd (savePostsToDatabase no_faults (ex_db 1 [] [])
          (map (\<lambda>i. ex_rss (decimal i) ''Hello'') [1..<52]))
     = ex_db 1 (ex_backlog 51) []"
  by code_simp

lemma ex_once:
  "snd (rssMonitorTask ascii_toLowerCase no_faults (Some ''<item><title>Hello</title><link>post-1-1</link></item>'')
          (ex_db 1 (ex_backlog 51) []))
     = ex_db 1 (ex_post 1 1 ''Hello'' 0 # map (\<lambda>i. ex_post (int i) (int i) ''Hello'' 1) [2..<52])
         (map (\<lambda>j. ex_log (int j) (52 - int j) 1 0 None) [1..<51])"
  unfolding rssMonitorTask_def fetchRSSData_def option.case ex_parse
  by code_simp

lemma ex_twice:
  "push_logs (snd (rssMonitorTask ascii_toLowerCase no_faults
          (Some ''<item><title>Hello</title><link>post-1-1</link></item>'')
          (ex_db 1 (ex_post 1 1 ''Hello'' 0 # map (\<lambda>i. ex_post (int i) (int i) ''Hello'' 1) [2..<52])
             (map (\<lambda>j. ex_log (int j) (52 - int j) 1 0 None) [1..<51]))))
     = map (\<lambda>j. ex_log (int j) (52 - int j) 1 0 None) [1..<51] @ [ex_log 51 1 1 0 None]"
  unfolding rssMonitorTask_def fetchRSSData_def option.case ex_parse
  by code_simp

text \<open>
  Claim C4, as stated, fails. The fan-out takes at most 50 unmatched posts per run. Take the
  store that the upsert leaves when a feed brings 51 new posts, and a feed whose one item is the
  oldest of them. The first run creates 50 obligations and leaves that post unmatched; the
  second run on the same feed inserts a 51st obligation, for the post of the feed.
\<close>

theorem ingestion_backlog_counterexample:
  "snd (savePostsToDatabase no_faults (ex_db 1 [] [])
          (map (\<lambda>i. ex_rss (decimal i) ''Hello'') [1..<52]))
     = ex_db 1 (ex_backlog 51) []
   \<and> snd (rssMonitorTask ascii_toLowerCase no_faults
          (Some ''<item><title>Hello</title><link>post-1-1</link></item>'')
          (ex_db 1 (ex_backlog 51) []))
     = ex_db 1 (ex_post 1 1 ''Hello'' 0 # map (\<lambda>i. ex_post (int i) (int i) ''Hello'' 1) [2..<52])
         (map (\<lambda>j. ex_log (int j) (52 - int j) 1 0 None) [1..<51])
   \<and> push_logs (snd (rssMonitorTask ascii_toLowerCase no_faults
          (Some ''<item><title>Hello</title><link>post-1-1</link></item>'')
          (ex_db 1 (ex_post 1 1 ''Hello'' 0 # map (\<lambda>i. ex_post (int i) (int i) ''Hello'' 1) [2..<52])
             (map (\<lambda>j. ex_log (int j) (52 - int j) 1 0 None) [1..<51]))))
     = map (\<lambda>j. ex_log (int j) (52 - int j) 1 0 None) [1..<51] @ [ex_log 51 1 1 0 None]"
  using ex_backlog_saved ex_once ex_twice by (intro conjI)

text \<open>
  The amended statement on an empty store and a feed of one item: the first run saves the post,
  creates one obligation and marks the post; the second run changes nothing.
\<close>

theorem ingestion_idempotent_witness:
  "getUnpushedPosts no_faults
      (snd (rssMonitorTask ascii_toLowerCase no_faults
         (Some ''<item><title>Hello</title><link>post-1-1</link></item>'') (ex_db 1 [] []))) 50 = []
   \<and> snd (rssMonitorTask ascii_toLowerCase no_faults
         (Some ''<item><title>Hello</title><link>post-1-1</link></item>'') (ex_db 1 [] []))
     = ex_db 1 [\<lparr>db_id = 1, post_id = Some 1, title = ''Hello'', content = [], pub_date = [],
                  category = no_category, creator = no_creator, is_push = 1\<rparr>]
         [ex_log 1 1 1 0 None]
   \<and> snd (rssMonitorTask ascii_toLowerCase no_faults
         (Some ''<item><title>Hello</title><link>post-1-1</link></item>'')
         (snd (rssMonitorTask ascii_toLowerCase no_faults
            (Some ''<item><title>Hello</title><link>post-1-1</link></item>'') (ex_db 1 [] []))))
     = snd (rssMonitorTask ascii_toLowerCase no_faults
         (Some ''<item><title>Hello</title><link>post-1-1</link></item>'') (ex_db 1 [] []))"
proof -
  let ?x = "Some ''<item><title>Hello</title><link>post-1-1</link></item>''"
  have r: "snd (rssMonitorTask ascii_toLowerCase no_faults ?x (ex_db 1 [] []))
     = ex_db 1 [\<lparr>db_id = 1, post_id = Some 1, title = ''Hello'', content = [], pub_date = [],
                  category = no_category, creator = no_creator, is_push = 1\<rparr>]
         [ex_log 1 1 1 0 None]"
    unfolding rssMonitorTask_def fetchRSSData_def option.case ex_parse
    by code_simp
  have h: "getUnpushedPosts no_faults (snd (rssMonitorTask ascii_toLowerCase no_faults ?x (ex_db 1 [] []))) 50 = []"
    unfolding r by code_simp
  from ingestion_idempotent[OF h] h r show ?thesis by (intro conjI)
qed

end
